theory Spec2Isabelle
  imports Main "HOL-Library.Word"
begin

section \<open>Go strings, runes and the UTF-8 conversions the tokenizer relies on\<close>

text \<open>
  A Go \<^verbatim>\<open>string\<close> is a sequence of bytes; it is modelled as a \<^typ>\<open>string\<close>, whose
  characters are exactly the 256 byte values. A \<^verbatim>\<open>rune\<close> is a signed integer holding
  a Unicode code point.

  \<^verbatim>\<open>for _, r := range content\<close> decodes the bytes as UTF-8, one code point per
  iteration; an ill-formed sequence yields the replacement character U+FFFD and
  advances by one byte. \<^verbatim>\<open>string(r)\<close> yields the UTF-8 encoding of the code point.
  Both are part of the language, not of this repository; they are modelled after
  the Go runtime's \<^verbatim>\<open>decoderune\<close> and \<^verbatim>\<open>encoderune\<close>, with the shifts and masks
  written as multiplication, division and remainder by powers of two.
\<close>

type_synonym rune = int

abbreviation runeError :: rune where "runeError \<equiv> 0xFFFD"
abbreviation runeSelf :: rune where "runeSelf \<equiv> 0x80"

definition contb :: "char \<Rightarrow> bool" where
  \<comment> \<open>\<^verbatim>\<open>locb <= b && b <= hicb\<close>: a continuation byte\<close>
  "contb c \<longleftrightarrow> (0x80 :: int) \<le> of_char c \<and> (of_char c :: int) \<le> 0xBF"

definition rune2 :: "int \<Rightarrow> int \<Rightarrow> rune" where
  \<comment> \<open>\<^verbatim>\<open>rune(s[0]&mask2)<<6 | rune(s[1]&maskx)\<close>\<close>
  "rune2 b0 b1 = (b0 mod 32) * 64 + b1 mod 64"

definition rune3 :: "int \<Rightarrow> int \<Rightarrow> int \<Rightarrow> rune" where
  \<comment> \<open>\<^verbatim>\<open>rune(s[0]&mask3)<<12 | rune(s[1]&maskx)<<6 | rune(s[2]&maskx)\<close>\<close>
  "rune3 b0 b1 b2 = (b0 mod 16) * 4096 + (b1 mod 64) * 64 + b2 mod 64"

definition rune4 :: "int \<Rightarrow> int \<Rightarrow> int \<Rightarrow> int \<Rightarrow> rune" where
  \<comment> \<open>\<^verbatim>\<open>rune(s[0]&mask4)<<18 | rune(s[1]&maskx)<<12 | rune(s[2]&maskx)<<6 | rune(s[3]&maskx)\<close>\<close>
  "rune4 b0 b1 b2 b3 = (b0 mod 8) * 262144 + (b1 mod 64) * 4096 + (b2 mod 64) * 64 + b3 mod 64"

definition decoderune :: "string \<Rightarrow> rune \<times> nat" where
  \<comment> \<open>the rune at the start of \<open>s\<close> and the number of bytes it occupies; called by
      the range loop on a non-ASCII first byte only\<close>
  "decoderune s =
    (if s = [] then (runeError, 1)
     else let b0 = (of_char (s ! 0) :: int) in
       if 0xC0 \<le> b0 \<and> b0 < 0xE0 then
         (if 1 < length s \<and> contb (s ! 1) then
            (let r = rune2 b0 (of_char (s ! 1))
             in if 0x7F < r then (r, 2) else (runeError, 1))
          else (runeError, 1))
       else if 0xE0 \<le> b0 \<and> b0 < 0xF0 then
         (if 2 < length s \<and> contb (s ! 1) \<and> contb (s ! 2) then
            (let r = rune3 b0 (of_char (s ! 1)) (of_char (s ! 2))
             in if 0x7FF < r \<and> \<not> (0xD800 \<le> r \<and> r \<le> 0xDFFF) then (r, 3)
                else (runeError, 1))
          else (runeError, 1))
       else if 0xF0 \<le> b0 \<and> b0 < 0xF8 then
         (if 3 < length s \<and> contb (s ! 1) \<and> contb (s ! 2) \<and> contb (s ! 3) then
            (let r = rune4 b0 (of_char (s ! 1)) (of_char (s ! 2)) (of_char (s ! 3))
             in if 0xFFFF < r \<and> r \<le> 0x10FFFF then (r, 4) else (runeError, 1))
          else (runeError, 1))
       else (runeError, 1))"

definition encoderune :: "rune \<Rightarrow> string" where
  \<comment> \<open>\<^verbatim>\<open>string(r)\<close>; \<open>i\<close> is \<^verbatim>\<open>uint32(r)\<close>\<close>
  "encoderune r =
    (let i = r mod 2 ^ 32 in
     if i \<le> 0x7F then [char_of r]
     else if i \<le> 0x7FF then [char_of (0xC0 + r div 64), char_of (0x80 + r mod 64)]
     else if 0x10FFFF < i \<or> (0xD800 \<le> i \<and> i \<le> 0xDFFF) then
       [char_of (0xEF :: int), char_of (0xBF :: int), char_of (0xBD :: int)]
     else if i \<le> 0xFFFF then
       [char_of (0xE0 + r div 4096), char_of (0x80 + r div 64 mod 64),
        char_of (0x80 + r mod 64)]
     else
       [char_of (0xF0 + r div 262144), char_of (0x80 + r div 4096 mod 64),
        char_of (0x80 + r div 64 mod 64), char_of (0x80 + r mod 64)])"

lemma decoderune_width: "snd (decoderune s) \<in> {1, 2, 3, 4}"
  unfolding decoderune_def Let_def
  by (simp only: if_distrib [of snd] snd_conv insert_iff simp_thms if_cancel split: if_split)

lemma decoderune_pos: "0 < snd (decoderune s)"
  using decoderune_width [of s] by auto

function rangeRunes :: "string \<Rightarrow> rune list" where
  \<comment> \<open>the values \<open>r\<close> takes in \<^verbatim>\<open>for _, r := range s\<close>, in order\<close>
  "rangeRunes s =
    (if s = [] then []
     else if (of_char (hd s) :: int) < runeSelf then of_char (hd s) # rangeRunes (tl s)
     else fst (decoderune s) # rangeRunes (drop (snd (decoderune s)) s))"
  by pat_completeness auto
termination
  by (relation "measure length") (auto simp: decoderune_pos)

declare rangeRunes.simps [simp del]

definition ContainsRune :: "string \<Rightarrow> rune \<Rightarrow> bool" where
  \<comment> \<open>\<^verbatim>\<open>strings.ContainsRune\<close>: the code point \<open>r\<close> is within \<open>s\<close>\<close>
  "ContainsRune s r \<longleftrightarrow> r \<in> set (rangeRunes s)"

definition HasPrefix :: "string \<Rightarrow> string \<Rightarrow> bool" where
  "HasPrefix s p \<longleftrightarrow> length p \<le> length s \<and> take (length p) s = p"

definition HasSuffix :: "string \<Rightarrow> string \<Rightarrow> bool" where
  "HasSuffix s p \<longleftrightarrow> length p \<le> length s \<and> drop (length s - length p) s = p"

text \<open>
  Well-formed UTF-8, as \<^verbatim>\<open>utf8.ValidString\<close> decides it: every byte belongs to a
  sequence of one of the shapes of the Unicode standard's table of well-formed byte
  sequences (no overlong forms, no surrogates, nothing above U+10FFFF).
\<close>

fun ValidString :: "string \<Rightarrow> bool" where
  "ValidString [] = True"
| "ValidString (c0 # s) =
    (let b0 = (of_char c0 :: int) in
     if b0 < 0x80 then ValidString s
     else if 0xC2 \<le> b0 \<and> b0 \<le> 0xDF then
       (case s of c1 # s1 \<Rightarrow> contb c1 \<and> ValidString s1 | _ \<Rightarrow> False)
     else if 0xE0 \<le> b0 \<and> b0 \<le> 0xEF then
       (case s of c1 # c2 # s2 \<Rightarrow>
          (if b0 = 0xE0 then 0xA0 else 0x80) \<le> (of_char c1 :: int) \<and>
          (of_char c1 :: int) \<le> (if b0 = 0xED then 0x9F else 0xBF) \<and>
          contb c2 \<and> ValidString s2
        | _ \<Rightarrow> False)
     else if 0xF0 \<le> b0 \<and> b0 \<le> 0xF4 then
       (case s of c1 # c2 # c3 # s3 \<Rightarrow>
          (if b0 = 0xF0 then 0x90 else 0x80) \<le> (of_char c1 :: int) \<and>
          (of_char c1 :: int) \<le> (if b0 = 0xF4 then 0x8F else 0xBF) \<and>
          contb c2 \<and> contb c3 \<and> ValidString s3
        | _ \<Rightarrow> False)
     else False)"

section \<open>Data\<close>

record NRGBA =
  R :: "8 word"
  G :: "8 word"
  B :: "8 word"
  A :: "8 word"

record Palette =
  Bg :: NRGBA
  Fg :: NRGBA
  ContrastBg :: NRGBA
  ContrastFg :: NRGBA

text \<open>Of \<^verbatim>\<open>material.Theme\<close> only the palette is read.\<close>

record Theme =
  Palette :: Palette

text \<open>
  \<^verbatim>\<open>richtext.SpanStyle\<close>. The font, the size and the metadata map belong to the
  toolkit and are never inspected, so their types are parameters.
\<close>

record ('f, 's, 'm) SpanStyle =
  Font :: 'f
  Size :: 's
  Color :: NRGBA
  Content :: string
  Interactive :: bool
  metadata :: 'm

text \<open>The anonymous struct returned by the tokenizer.\<close>

record Part =
  Text :: string
  IsKeyword :: bool

section \<open>The classifier, the tokenizer and the stylist\<close>

fun isKeywordLoop :: "string \<Rightarrow> string list \<Rightarrow> bool" where
  \<comment> \<open>the loop of \<open>classifyToken\<close>, leaving at the first equal keyword\<close>
  "isKeywordLoop token [] = False"
| "isKeywordLoop token (keyword # keywords) =
     (if token = keyword then True else isKeywordLoop token keywords)"

definition classifyToken :: "string \<Rightarrow> string list \<Rightarrow> Part" where
  "classifyToken token keywords =
     \<lparr>Text = token, IsKeyword = isKeywordLoop token keywords\<rparr>"

definition separators :: string where
  "separators = [CHR '' '', CHR 0x09, CHR 0x0A] @ ''().,;{}''"

fun splitStep :: "string list \<Rightarrow> Part list \<times> string \<Rightarrow> rune \<Rightarrow> Part list \<times> string" where
  \<comment> \<open>one iteration of the loop of \<open>splitByKeywords\<close> on the state \<open>(result, token)\<close>\<close>
  "splitStep keywords (result, token) r =
     (if ContainsRune separators r then
        (let result1 = (if token \<noteq> [] then result @ [classifyToken token keywords]
                        else result)
         in (result1 @ [\<lparr>Text = encoderune r, IsKeyword = False\<rparr>], []))
      else (result, token @ encoderune r))"

definition splitByKeywords :: "string \<Rightarrow> string list \<Rightarrow> Part list" where
  "splitByKeywords content keywords =
     (case foldl (splitStep keywords) ([], []) (rangeRunes content) of
        (result, token) \<Rightarrow>
          if token \<noteq> [] then result @ [classifyToken token keywords] else result)"

text \<open>
  The same loop read front to back: the tokens still to come from the runes \<open>rs\<close>
  when the buffer holds \<open>token\<close>. It is used in proofs only
  (see \<open>splitByKeywords_tokensFrom\<close>).
\<close>

fun tokensFrom :: "string list \<Rightarrow> rune list \<Rightarrow> string \<Rightarrow> Part list" where
  "tokensFrom kws [] token = (if token \<noteq> [] then [classifyToken token kws] else [])"
| "tokensFrom kws (r # rs) token =
     (if ContainsRune separators r then
        (if token \<noteq> [] then [classifyToken token kws] else [])
          @ \<lparr>Text = encoderune r, IsKeyword = False\<rparr> # tokensFrom kws rs []
      else tokensFrom kws rs (token @ encoderune r))"

definition isSymbol :: "string \<Rightarrow> bool" where
  "isSymbol text \<longleftrightarrow> length text = 1 \<and> ContainsRune ''(),;{}'' (of_char (text ! 0))"

definition isString :: "string \<Rightarrow> bool" where
  "isString text \<longleftrightarrow> HasPrefix text [CHR 0x22] \<and> HasSuffix text [CHR 0x22]"

definition symbolColor :: NRGBA where
  "symbolColor = \<lparr>R = 0xFF, G = 0, B = 0, A = 0xFF\<rparr>"

definition stringColor :: NRGBA where
  "stringColor = \<lparr>R = 0xFF, G = 0x69, B = 0xB4, A = 0xFF\<rparr>"

definition styleStep ::
  "('f, 's, 'm) SpanStyle \<Rightarrow> Theme \<Rightarrow> ('f, 's, 'm) SpanStyle list \<Rightarrow> Part
     \<Rightarrow> ('f, 's, 'm) SpanStyle list" where
  \<comment> \<open>one iteration of the loop of \<open>splitCodeContent\<close>\<close>
  "styleStep span th styledSpans part =
     (let ns = span;
          ns = (if IsKeyword part then ns\<lparr>Color := ContrastBg (Palette th)\<rparr>
                else if isSymbol (Text part) then ns\<lparr>Color := symbolColor\<rparr>
                else if isString (Text part) then ns\<lparr>Color := stringColor\<rparr>
                else ns\<lparr>Color := Fg (Palette th)\<rparr>);
          ns = ns\<lparr>Content := Text part\<rparr>
      in styledSpans @ [ns])"

definition partColor :: "Theme \<Rightarrow> Part \<Rightarrow> NRGBA" where
  \<comment> \<open>the colour the \<^verbatim>\<open>switch\<close> of \<open>splitCodeContent\<close> selects; used in proofs only
      (see \<open>styleStep_eq\<close>)\<close>
  "partColor th part =
     (if IsKeyword part then ContrastBg (Palette th)
      else if isSymbol (Text part) then symbolColor
      else if isString (Text part) then stringColor
      else Fg (Palette th))"

definition codeKeywords :: "string list" where
  \<comment> \<open>the local \<open>keywords\<close> of \<open>splitCodeContent\<close>\<close>
  "codeKeywords = [''func'', ''main'', ''Println'']"

definition splitCodeContent ::
  "('f, 's, 'm) SpanStyle \<Rightarrow> Theme \<Rightarrow> ('f, 's, 'm) SpanStyle list" where
  "splitCodeContent span th =
     (let keywords = codeKeywords;
          parts = splitByKeywords (Content span) keywords
      in foldl (styleStep span th) [] parts)"

text \<open>
  A concrete theme and span on which the theorems below are instantiated: a light
  palette (black on white, indigo as the contrast colour) and a monospace span holding
  the text \<open>func main() {\<close>.
\<close>

definition sampleTheme :: Theme where
  "sampleTheme =
     \<lparr>Palette = \<lparr>Bg = \<lparr>R = 0xFF, G = 0xFF, B = 0xFF, A = 0xFF\<rparr>,
                  Fg = \<lparr>R = 0, G = 0, B = 0, A = 0xFF\<rparr>,
                  ContrastBg = \<lparr>R = 0x3F, G = 0x51, B = 0xB5, A = 0xFF\<rparr>,
                  ContrastFg = \<lparr>R = 0xFF, G = 0xFF, B = 0xFF, A = 0xFF\<rparr>\<rparr>\<rparr>"

definition sampleSpan :: "(string, nat, unit) SpanStyle" where
  "sampleSpan =
     \<lparr>Font = ''monospace'', Size = 16, Color = \<lparr>R = 0, G = 0, B = 0, A = 0xFF\<rparr>,
      Content = ''func main() {'', Interactive = False, metadata = ()\<rparr>"

section \<open>Lemmas\<close>

subsection \<open>Arithmetic of the packed bytes\<close>

lemma pack_div:
  fixes x y n :: int
  assumes "0 \<le> y" "y < n"
  shows "(x * n + y) div n = x" and "(x * n + y) mod n = y"
  using assms by (simp_all add: div_pos_pos_trivial)

lemma mod_offset:
  fixes b k n :: int
  assumes "k * n \<le> b" "b < k * n + n"
  shows "b mod n = b - k * n"
proof -
  have "b mod n = (b - k * n + k * n) mod n" by simp
  also have "\<dots> = (b - k * n) mod n" by (simp only: mod_mult_self1)
  also have "\<dots> = b - k * n" using assms by (simp add: mod_pos_pos_trivial)
  finally show ?thesis .
qed

lemma pack3:
  fixes x y1 y2 :: int
  assumes "0 \<le> y1" "y1 < 64" "0 \<le> y2" "y2 < 64"
  defines "r \<equiv> x * 4096 + y1 * 64 + y2"
  shows "r div 4096 = x" "r div 64 mod 64 = y1" "r mod 64 = y2"
proof -
  have a: "r = x * 4096 + (y1 * 64 + y2)" by (simp add: r_def)
  have b: "r = (x * 64 + y1) * 64 + y2" by (simp add: r_def algebra_simps)
  show "r div 4096 = x" unfolding a using assms(1-4) by (intro pack_div) auto
  have "r div 64 = x * 64 + y1" unfolding b using assms(1-4) by (intro pack_div) auto
  then show "r div 64 mod 64 = y1" using pack_div [of y1 64 x] assms(1-4) by simp
  show "r mod 64 = y2" unfolding b using assms(1-4) by (intro pack_div) auto
qed

lemma pack4:
  fixes x y1 y2 y3 :: int
  assumes "0 \<le> y1" "y1 < 64" "0 \<le> y2" "y2 < 64" "0 \<le> y3" "y3 < 64"
  defines "r \<equiv> x * 262144 + y1 * 4096 + y2 * 64 + y3"
  shows "r div 262144 = x" "r div 4096 mod 64 = y1" "r div 64 mod 64 = y2" "r mod 64 = y3"
proof -
  have a: "r = x * 262144 + (y1 * 4096 + y2 * 64 + y3)" by (simp add: r_def)
  have b: "r = (x * 64 + y1) * 4096 + (y2 * 64 + y3)" by (simp add: r_def algebra_simps)
  have c: "r = ((x * 64 + y1) * 64 + y2) * 64 + y3" by (simp add: r_def algebra_simps)
  show "r div 262144 = x" unfolding a using assms(1-6) by (intro pack_div) auto
  have "r div 4096 = x * 64 + y1" unfolding b using assms(1-6) by (intro pack_div) auto
  then show "r div 4096 mod 64 = y1" using pack_div [of y1 64 x] assms(1-6) by simp
  have "r div 64 = (x * 64 + y1) * 64 + y2" unfolding c using assms(1-6) by (intro pack_div) auto
  then show "r div 64 mod 64 = y2" using pack_div [of y2 64 "x * 64 + y1"] assms(1-6) by simp
  show "r mod 64 = y3" unfolding c using assms(1-6) by (intro pack_div) auto
qed

lemma of_char_int_bounds: "0 \<le> (of_char c :: int) \<and> (of_char c :: int) < 256"
proof -
  have "(of_char c :: int) = int (of_char c)" by (simp add: of_nat_of_char)
  moreover have "(of_char c :: nat) < 256" by simp
  ultimately show ?thesis by linarith
qed

lemma cont_mod:
  fixes b :: int
  assumes "0x80 \<le> b" "b \<le> 0xBF"
  shows "b mod 64 = b - 128"
  using mod_offset [of 2 64 b] assms by simp

text \<open>The three packings, on a lead byte written as its marker plus the payload.\<close>

lemma rune2_eq:
  assumes "0xC0 \<le> b0" "b0 < 0xE0" "0x80 \<le> b1" "b1 \<le> 0xBF"
  shows "rune2 b0 b1 = (b0 - 0xC0) * 64 + (b1 - 0x80)"
  using mod_offset [of 6 32 b0] cont_mod [of b1] assms by (simp add: rune2_def)

lemma rune3_eq:
  assumes "0xE0 \<le> b0" "b0 < 0xF0" "0x80 \<le> b1" "b1 \<le> 0xBF" "0x80 \<le> b2" "b2 \<le> 0xBF"
  shows "rune3 b0 b1 b2 = (b0 - 0xE0) * 4096 + (b1 - 0x80) * 64 + (b2 - 0x80)"
  using mod_offset [of 14 16 b0] cont_mod [of b1] cont_mod [of b2] assms
  by (simp add: rune3_def)

lemma rune4_eq:
  assumes "0xF0 \<le> b0" "b0 < 0xF8" "0x80 \<le> b1" "b1 \<le> 0xBF" "0x80 \<le> b2" "b2 \<le> 0xBF"
    "0x80 \<le> b3" "b3 \<le> 0xBF"
  shows "rune4 b0 b1 b2 b3 =
    (b0 - 0xF0) * 262144 + (b1 - 0x80) * 4096 + (b2 - 0x80) * 64 + (b3 - 0x80)"
  using mod_offset [of 30 8 b0] cont_mod [of b1] cont_mod [of b2] cont_mod [of b3] assms
  by (simp add: rune4_def)

subsection \<open>Encoding, by the size of the code point\<close>

lemma encoderune_1: "0 \<le> r \<Longrightarrow> r \<le> 0x7F \<Longrightarrow> encoderune r = [char_of r]"
  by (simp add: encoderune_def Let_def)

lemma encoderune_2:
  "0x7F < r \<Longrightarrow> r \<le> 0x7FF \<Longrightarrow>
   encoderune r = [char_of (0xC0 + r div 64), char_of (0x80 + r mod 64)]"
  by (simp add: encoderune_def Let_def)

lemma encoderune_3:
  "0x7FF < r \<Longrightarrow> r \<le> 0xFFFF \<Longrightarrow> \<not> (0xD800 \<le> r \<and> r \<le> 0xDFFF) \<Longrightarrow>
   encoderune r = [char_of (0xE0 + r div 4096), char_of (0x80 + r div 64 mod 64),
                   char_of (0x80 + r mod 64)]"
  by (auto simp add: encoderune_def Let_def)

lemma encoderune_4:
  "0xFFFF < r \<Longrightarrow> r \<le> 0x10FFFF \<Longrightarrow>
   encoderune r = [char_of (0xF0 + r div 262144), char_of (0x80 + r div 4096 mod 64),
                   char_of (0x80 + r div 64 mod 64), char_of (0x80 + r mod 64)]"
  by (simp add: encoderune_def Let_def)

lemma encoderune_surrogate:
  "0xD800 \<le> r \<Longrightarrow> r \<le> 0xDFFF \<Longrightarrow>
   encoderune r = [char_of (0xEF :: int), char_of (0xBF :: int), char_of (0xBD :: int)]"
  by (simp add: encoderune_def Let_def)

lemma encoderune_of_char:
  "(of_char c :: int) < 0x80 \<Longrightarrow> encoderune (of_char c) = [c]"
  using of_char_int_bounds [of c] by (simp add: encoderune_1)

subsection \<open>Decoding a well-formed sequence and encoding it again\<close>

lemma roundtrip2:
  assumes "0xC2 \<le> (of_char c0 :: int)" "(of_char c0 :: int) \<le> 0xDF" "contb c1"
  shows "0x7F < rune2 (of_char c0) (of_char c1)"
    and "encoderune (rune2 (of_char c0) (of_char c1)) = [c0, c1]"
proof -
  define x y :: int where "x = of_char c0 - 0xC0" and "y = of_char c1 - 0x80"
  have c1: "0x80 \<le> (of_char c1 :: int)" "(of_char c1 :: int) \<le> 0xBF"
    using assms(3) by (simp_all add: contb_def)
  have xb: "2 \<le> x" "x \<le> 31" and yb: "0 \<le> y" "y < 64"
    using assms(1,2) c1 by (simp_all add: x_def y_def)
  have r: "rune2 (of_char c0) (of_char c1) = x * 64 + y"
    unfolding x_def y_def by (rule rune2_eq) (use assms(1,2) c1 in simp_all)
  have d: "(x * 64 + y) div 64 = x" "(x * 64 + y) mod 64 = y"
    by (rule pack_div [OF yb])+
  have lo: "0x7F < x * 64 + y" and hi: "x * 64 + y \<le> 0x7FF"
    using xb yb by linarith+
  show "0x7F < rune2 (of_char c0) (of_char c1)" using lo by (simp add: r)
  have b: "0xC0 + (x * 64 + y) div 64 = of_char c0" "0x80 + (x * 64 + y) mod 64 = of_char c1"
    by (simp_all only: d) (simp_all add: x_def y_def)
  show "encoderune (rune2 (of_char c0) (of_char c1)) = [c0, c1]"
    by (simp only: r encoderune_2 [OF lo hi] b char_of_char)
qed

lemma roundtrip3:
  assumes "0xE0 \<le> (of_char c0 :: int)" "(of_char c0 :: int) \<le> 0xEF"
    "(if (of_char c0 :: int) = 0xE0 then 0xA0 else 0x80) \<le> (of_char c1 :: int)"
    "(of_char c1 :: int) \<le> (if (of_char c0 :: int) = 0xED then 0x9F else 0xBF)"
    "contb c2"
  shows "0x7FF < rune3 (of_char c0) (of_char c1) (of_char c2)"
    and "\<not> (0xD800 \<le> rune3 (of_char c0) (of_char c1) (of_char c2)
           \<and> rune3 (of_char c0) (of_char c1) (of_char c2) \<le> 0xDFFF)"
    and "encoderune (rune3 (of_char c0) (of_char c1) (of_char c2)) = [c0, c1, c2]"
proof -
  define x y1 y2 :: int
    where "x = of_char c0 - 0xE0" and "y1 = of_char c1 - 0x80" and "y2 = of_char c2 - 0x80"
  have c2: "0x80 \<le> (of_char c2 :: int)" "(of_char c2 :: int) \<le> 0xBF"
    using assms(5) by (simp_all add: contb_def)
  have c1: "0x80 \<le> (of_char c1 :: int)" "(of_char c1 :: int) \<le> 0xBF"
    using assms(3,4) by (simp_all split: if_splits)
  have xb: "0 \<le> x" "x \<le> 15" and y1b: "0 \<le> y1" "y1 < 64" and y2b: "0 \<le> y2" "y2 < 64"
    using assms(1,2) c1 c2 by (simp_all add: x_def y1_def y2_def)
  have first: "x = 0 \<Longrightarrow> 32 \<le> y1" and sur: "x = 13 \<Longrightarrow> y1 \<le> 31"
    using assms(3,4) by (simp_all add: x_def y1_def split: if_splits)
  have r: "rune3 (of_char c0) (of_char c1) (of_char c2) = x * 4096 + y1 * 64 + y2"
    unfolding x_def y1_def y2_def
    by (rule rune3_eq) (use assms(1,2) c1 c2 in simp_all)
  have d: "(x * 4096 + y1 * 64 + y2) div 4096 = x"
    "(x * 4096 + y1 * 64 + y2) div 64 mod 64 = y1"
    "(x * 4096 + y1 * 64 + y2) mod 64 = y2"
    by (rule pack3 [OF y1b y2b])+
  have lo: "0x7FF < x * 4096 + y1 * 64 + y2"
  proof (cases "x = 0")
    case True
    with first y2b show ?thesis by simp
  next
    case False
    with xb y1b y2b show ?thesis by linarith
  qed
  have hi: "x * 4096 + y1 * 64 + y2 \<le> 0xFFFF"
    using xb y1b y2b by linarith
  have ns: "\<not> (0xD800 \<le> x * 4096 + y1 * 64 + y2 \<and> x * 4096 + y1 * 64 + y2 \<le> 0xDFFF)"
  proof -
    consider "x \<le> 12" | "x = 13" | "14 \<le> x" by linarith
    then show ?thesis
    proof cases
      case 1
      with y1b y2b show ?thesis by linarith
    next
      case 2
      with sur y1b y2b show ?thesis by simp
    next
      case 3
      with y1b y2b show ?thesis by linarith
    qed
  qed
  show "0x7FF < rune3 (of_char c0) (of_char c1) (of_char c2)" using lo by (simp add: r)
  show "\<not> (0xD800 \<le> rune3 (of_char c0) (of_char c1) (of_char c2)
           \<and> rune3 (of_char c0) (of_char c1) (of_char c2) \<le> 0xDFFF)"
    using ns by (simp add: r)
  have b: "0xE0 + (x * 4096 + y1 * 64 + y2) div 4096 = of_char c0"
    "0x80 + (x * 4096 + y1 * 64 + y2) div 64 mod 64 = of_char c1"
    "0x80 + (x * 4096 + y1 * 64 + y2) mod 64 = of_char c2"
    by (simp_all only: d) (simp_all add: x_def y1_def y2_def)
  show "encoderune (rune3 (of_char c0) (of_char c1) (of_char c2)) = [c0, c1, c2]"
    by (simp only: r encoderune_3 [OF lo hi ns] b char_of_char)
qed

lemma roundtrip4:
  assumes "0xF0 \<le> (of_char c0 :: int)" "(of_char c0 :: int) \<le> 0xF4"
    "(if (of_char c0 :: int) = 0xF0 then 0x90 else 0x80) \<le> (of_char c1 :: int)"
    "(of_char c1 :: int) \<le> (if (of_char c0 :: int) = 0xF4 then 0x8F else 0xBF)"
    "contb c2" "contb c3"
  shows "0xFFFF < rune4 (of_char c0) (of_char c1) (of_char c2) (of_char c3)"
    and "rune4 (of_char c0) (of_char c1) (of_char c2) (of_char c3) \<le> 0x10FFFF"
    and "encoderune (rune4 (of_char c0) (of_char c1) (of_char c2) (of_char c3))
           = [c0, c1, c2, c3]"
proof -
  define x y1 y2 y3 :: int
    where "x = of_char c0 - 0xF0" and "y1 = of_char c1 - 0x80"
      and "y2 = of_char c2 - 0x80" and "y3 = of_char c3 - 0x80"
  have c2: "0x80 \<le> (of_char c2 :: int)" "(of_char c2 :: int) \<le> 0xBF"
    using assms(5) by (simp_all add: contb_def)
  have c3: "0x80 \<le> (of_char c3 :: int)" "(of_char c3 :: int) \<le> 0xBF"
    using assms(6) by (simp_all add: contb_def)
  have c1: "0x80 \<le> (of_char c1 :: int)" "(of_char c1 :: int) \<le> 0xBF"
    using assms(3,4) by (simp_all split: if_splits)
  have xb: "0 \<le> x" "x \<le> 4" and y1b: "0 \<le> y1" "y1 < 64"
    and y2b: "0 \<le> y2" "y2 < 64" and y3b: "0 \<le> y3" "y3 < 64"
    using assms(1,2) c1 c2 c3 by (simp_all add: x_def y1_def y2_def y3_def)
  have first: "x = 0 \<Longrightarrow> 16 \<le> y1" and top: "x = 4 \<Longrightarrow> y1 \<le> 15"
    using assms(3,4) by (simp_all add: x_def y1_def split: if_splits)
  have r: "rune4 (of_char c0) (of_char c1) (of_char c2) (of_char c3)
             = x * 262144 + y1 * 4096 + y2 * 64 + y3"
    unfolding x_def y1_def y2_def y3_def
    by (rule rune4_eq) (use assms(1,2) c1 c2 c3 in simp_all)
  have d: "(x * 262144 + y1 * 4096 + y2 * 64 + y3) div 262144 = x"
    "(x * 262144 + y1 * 4096 + y2 * 64 + y3) div 4096 mod 64 = y1"
    "(x * 262144 + y1 * 4096 + y2 * 64 + y3) div 64 mod 64 = y2"
    "(x * 262144 + y1 * 4096 + y2 * 64 + y3) mod 64 = y3"
    by (rule pack4 [OF y1b y2b y3b])+
  have lo: "0xFFFF < x * 262144 + y1 * 4096 + y2 * 64 + y3"
  proof (cases "x = 0")
    case True
    with first y2b y3b show ?thesis by simp
  next
    case False
    with xb y1b y2b y3b show ?thesis by linarith
  qed
  have hi: "x * 262144 + y1 * 4096 + y2 * 64 + y3 \<le> 0x10FFFF"
  proof (cases "x = 4")
    case True
    with top y2b y3b show ?thesis by simp
  next
    case False
    with xb y1b y2b y3b show ?thesis by linarith
  qed
  show "0xFFFF < rune4 (of_char c0) (of_char c1) (of_char c2) (of_char c3)"
    using lo by (simp add: r)
  show "rune4 (of_char c0) (of_char c1) (of_char c2) (of_char c3) \<le> 0x10FFFF"
    using hi by (simp add: r)
  have b: "0xF0 + (x * 262144 + y1 * 4096 + y2 * 64 + y3) div 262144 = of_char c0"
    "0x80 + (x * 262144 + y1 * 4096 + y2 * 64 + y3) div 4096 mod 64 = of_char c1"
    "0x80 + (x * 262144 + y1 * 4096 + y2 * 64 + y3) div 64 mod 64 = of_char c2"
    "0x80 + (x * 262144 + y1 * 4096 + y2 * 64 + y3) mod 64 = of_char c3"
    by (simp_all only: d) (simp_all add: x_def y1_def y2_def y3_def)
  show "encoderune (rune4 (of_char c0) (of_char c1) (of_char c2) (of_char c3))
          = [c0, c1, c2, c3]"
    by (simp only: r encoderune_4 [OF lo hi] b char_of_char)
qed

subsection \<open>The range loop, one step at a time\<close>

lemma rangeRunes_Nil [simp]: "rangeRunes [] = []"
  by (simp add: rangeRunes.simps)

lemma rangeRunes_ascii:
  "(of_char c :: int) < 0x80 \<Longrightarrow> rangeRunes (c # s) = of_char c # rangeRunes s"
  by (subst rangeRunes.simps) simp

lemma rangeRunes_multi:
  "\<not> (of_char c :: int) < 0x80 \<Longrightarrow>
   rangeRunes (c # s)
     = fst (decoderune (c # s)) # rangeRunes (drop (snd (decoderune (c # s))) (c # s))"
  by (subst rangeRunes.simps) simp

lemma decoderune2:
  assumes "0xC2 \<le> (of_char c0 :: int)" "(of_char c0 :: int) \<le> 0xDF" "contb c1"
  shows "decoderune (c0 # c1 # s) = (rune2 (of_char c0) (of_char c1), 2)"
  using assms roundtrip2(1) [OF assms] by (simp add: decoderune_def Let_def)

lemma decoderune3:
  assumes "0xE0 \<le> (of_char c0 :: int)" "(of_char c0 :: int) \<le> 0xEF"
    "(if (of_char c0 :: int) = 0xE0 then 0xA0 else 0x80) \<le> (of_char c1 :: int)"
    "(of_char c1 :: int) \<le> (if (of_char c0 :: int) = 0xED then 0x9F else 0xBF)"
    "contb c2"
  shows "decoderune (c0 # c1 # c2 # s) = (rune3 (of_char c0) (of_char c1) (of_char c2), 3)"
proof -
  have c1: "contb c1" using assms(3,4) by (simp add: contb_def split: if_splits)
  show ?thesis
    using assms(1,2,5) c1 roundtrip3(1,2) [OF assms]
    by (simp add: decoderune_def Let_def)
qed

lemma decoderune4:
  assumes "0xF0 \<le> (of_char c0 :: int)" "(of_char c0 :: int) \<le> 0xF4"
    "(if (of_char c0 :: int) = 0xF0 then 0x90 else 0x80) \<le> (of_char c1 :: int)"
    "(of_char c1 :: int) \<le> (if (of_char c0 :: int) = 0xF4 then 0x8F else 0xBF)"
    "contb c2" "contb c3"
  shows "decoderune (c0 # c1 # c2 # c3 # s)
           = (rune4 (of_char c0) (of_char c1) (of_char c2) (of_char c3), 4)"
proof -
  have c1: "contb c1" using assms(3,4) by (simp add: contb_def split: if_splits)
  show ?thesis
    using assms(1,2,5,6) c1 roundtrip4(1,2) [OF assms]
    by (simp add: decoderune_def Let_def)
qed

subsection \<open>Well-formed input is read and written back unchanged\<close>

lemma ValidString_ascii:
  "(of_char c0 :: int) < 0x80 \<Longrightarrow> ValidString (c0 # t) = ValidString t"
  by simp

lemma ValidString_2:
  "0xC2 \<le> (of_char c0 :: int) \<Longrightarrow> (of_char c0 :: int) \<le> 0xDF \<Longrightarrow> ValidString (c0 # t) \<Longrightarrow>
   \<exists>c1 s1. t = c1 # s1 \<and> contb c1 \<and> ValidString s1"
  by (cases t) (simp_all add: Let_def)

lemma ValidString_3:
  "0xE0 \<le> (of_char c0 :: int) \<Longrightarrow> (of_char c0 :: int) \<le> 0xEF \<Longrightarrow> ValidString (c0 # t) \<Longrightarrow>
   \<exists>c1 c2 s2. t = c1 # c2 # s2 \<and>
     (if (of_char c0 :: int) = 0xE0 then 0xA0 else 0x80) \<le> (of_char c1 :: int) \<and>
     (of_char c1 :: int) \<le> (if (of_char c0 :: int) = 0xED then 0x9F else 0xBF) \<and>
     contb c2 \<and> ValidString s2"
  by (cases t; cases "tl t") (simp_all add: Let_def)

lemma ValidString_4:
  "0xF0 \<le> (of_char c0 :: int) \<Longrightarrow> (of_char c0 :: int) \<le> 0xF4 \<Longrightarrow> ValidString (c0 # t) \<Longrightarrow>
   \<exists>c1 c2 c3 s3. t = c1 # c2 # c3 # s3 \<and>
     (if (of_char c0 :: int) = 0xF0 then 0x90 else 0x80) \<le> (of_char c1 :: int) \<and>
     (of_char c1 :: int) \<le> (if (of_char c0 :: int) = 0xF4 then 0x8F else 0xBF) \<and>
     contb c2 \<and> contb c3 \<and> ValidString s3"
  by (cases t; cases "tl t"; cases "tl (tl t)") (simp_all add: Let_def)

lemma ValidString_lead:
  "ValidString (c0 # t) \<Longrightarrow>
   (of_char c0 :: int) < 0x80 \<or> (0xC2 \<le> (of_char c0 :: int) \<and> (of_char c0 :: int) \<le> 0xDF)
   \<or> (0xE0 \<le> (of_char c0 :: int) \<and> (of_char c0 :: int) \<le> 0xEF)
   \<or> (0xF0 \<le> (of_char c0 :: int) \<and> (of_char c0 :: int) \<le> 0xF4)"
  by (simp add: Let_def split: if_splits)

lemma ValidString_roundtrip:
  "ValidString s \<Longrightarrow> concat (map encoderune (rangeRunes s)) = s"
proof (induction s rule: length_induct)
  case (1 s)
  show ?case
  proof (cases s)
    case Nil
    then show ?thesis by simp
  next
    case (Cons c0 t)
    have IH: "\<And>u. length u \<le> length t \<Longrightarrow> ValidString u
                \<Longrightarrow> concat (map encoderune (rangeRunes u)) = u"
      using "1.IH" Cons by simp
    from "1.prems" Cons have v: "ValidString (c0 # t)" by simp
    from ValidString_lead [OF v] consider
        (one) "(of_char c0 :: int) < 0x80"
      | (two) "0xC2 \<le> (of_char c0 :: int)" "(of_char c0 :: int) \<le> 0xDF"
      | (three) "0xE0 \<le> (of_char c0 :: int)" "(of_char c0 :: int) \<le> 0xEF"
      | (four) "0xF0 \<le> (of_char c0 :: int)" "(of_char c0 :: int) \<le> 0xF4"
      by blast
    then show ?thesis
    proof cases
      case one
      with v have "ValidString t" by simp
      then have "concat (map encoderune (rangeRunes t)) = t" by (simp add: IH)
      with one Cons show ?thesis by (simp add: rangeRunes_ascii encoderune_of_char)
    next
      case two
      from ValidString_2 [OF two v] obtain c1 s1
        where t: "t = c1 # s1" and c1: "contb c1" and v1: "ValidString s1" by blast
      have hi: "\<not> (of_char c0 :: int) < 0x80" using two by simp
      have "rangeRunes (c0 # c1 # s1) = rune2 (of_char c0) (of_char c1) # rangeRunes s1"
        by (simp add: rangeRunes_multi [OF hi] decoderune2 [OF two c1])
      moreover have "concat (map encoderune (rangeRunes s1)) = s1"
        using v1 t by (simp add: IH)
      ultimately show ?thesis
        using Cons t by (simp add: roundtrip2(2) [OF two c1])
    next
      case three
      from ValidString_3 [OF three v] obtain c1 c2 s2
        where t: "t = c1 # c2 # s2"
          and c1: "(if (of_char c0 :: int) = 0xE0 then 0xA0 else 0x80) \<le> (of_char c1 :: int)"
            "(of_char c1 :: int) \<le> (if (of_char c0 :: int) = 0xED then 0x9F else 0xBF)"
          and c2: "contb c2" and v2: "ValidString s2" by blast
      have hi: "\<not> (of_char c0 :: int) < 0x80" using three by simp
      have "rangeRunes (c0 # c1 # c2 # s2)
              = rune3 (of_char c0) (of_char c1) (of_char c2) # rangeRunes s2"
        by (simp add: rangeRunes_multi [OF hi] decoderune3 [OF three c1 c2])
      moreover have "concat (map encoderune (rangeRunes s2)) = s2"
        using v2 t by (simp add: IH)
      ultimately show ?thesis
        using Cons t by (simp add: roundtrip3(3) [OF three c1 c2])
    next
      case four
      from ValidString_4 [OF four v] obtain c1 c2 c3 s3
        where t: "t = c1 # c2 # c3 # s3"
          and c1: "(if (of_char c0 :: int) = 0xF0 then 0x90 else 0x80) \<le> (of_char c1 :: int)"
            "(of_char c1 :: int) \<le> (if (of_char c0 :: int) = 0xF4 then 0x8F else 0xBF)"
          and c2: "contb c2" and c3: "contb c3" and v3: "ValidString s3" by blast
      have hi: "\<not> (of_char c0 :: int) < 0x80" using four by simp
      have "rangeRunes (c0 # c1 # c2 # c3 # s3)
              = rune4 (of_char c0) (of_char c1) (of_char c2) (of_char c3) # rangeRunes s3"
        by (simp add: rangeRunes_multi [OF hi] decoderune4 [OF four c1 c2 c3])
      moreover have "concat (map encoderune (rangeRunes s3)) = s3"
        using v3 t by (simp add: IH)
      ultimately show ?thesis
        using Cons t by (simp add: roundtrip4(3) [OF four c1 c2 c3])
    qed
  qed
qed

subsection \<open>What the range loop yields on arbitrary bytes\<close>

lemma decoderune_forms:
  assumes "s \<noteq> []"
  shows "decoderune s = (runeError, 1)
    \<or> (1 < length s \<and> contb (s ! 1)
        \<and> 0xC0 \<le> (of_char (s ! 0) :: int) \<and> (of_char (s ! 0) :: int) < 0xE0
        \<and> 0x7F < rune2 (of_char (s ! 0)) (of_char (s ! 1))
        \<and> decoderune s = (rune2 (of_char (s ! 0)) (of_char (s ! 1)), 2))
    \<or> (2 < length s \<and> contb (s ! 1) \<and> contb (s ! 2)
        \<and> 0xE0 \<le> (of_char (s ! 0) :: int) \<and> (of_char (s ! 0) :: int) < 0xF0
        \<and> 0x7FF < rune3 (of_char (s ! 0)) (of_char (s ! 1)) (of_char (s ! 2))
        \<and> \<not> (0xD800 \<le> rune3 (of_char (s ! 0)) (of_char (s ! 1)) (of_char (s ! 2))
               \<and> rune3 (of_char (s ! 0)) (of_char (s ! 1)) (of_char (s ! 2)) \<le> 0xDFFF)
        \<and> decoderune s = (rune3 (of_char (s ! 0)) (of_char (s ! 1)) (of_char (s ! 2)), 3))
    \<or> (3 < length s \<and> contb (s ! 1) \<and> contb (s ! 2) \<and> contb (s ! 3)
        \<and> 0xF0 \<le> (of_char (s ! 0) :: int) \<and> (of_char (s ! 0) :: int) < 0xF8
        \<and> 0xFFFF < rune4 (of_char (s ! 0)) (of_char (s ! 1)) (of_char (s ! 2)) (of_char (s ! 3))
        \<and> rune4 (of_char (s ! 0)) (of_char (s ! 1)) (of_char (s ! 2)) (of_char (s ! 3)) \<le> 0x10FFFF
        \<and> decoderune s
            = (rune4 (of_char (s ! 0)) (of_char (s ! 1)) (of_char (s ! 2)) (of_char (s ! 3)), 4))"
  using assms by (simp add: decoderune_def Let_def)

lemma take2: "1 < length s \<Longrightarrow> take 2 s = [s ! 0, s ! 1]"
proof -
  assume a: "1 < length s"
  obtain x0 t0 where s: "s = x0 # t0" using a by (cases s) auto
  obtain x1 t1 where t0: "t0 = x1 # t1" using a s by (cases t0) auto
  show ?thesis by (simp add: s t0)
qed

lemma take3: "2 < length s \<Longrightarrow> take 3 s = [s ! 0, s ! 1, s ! 2]"
proof -
  assume a: "2 < length s"
  obtain x0 t0 where s: "s = x0 # t0" using a by (cases s) auto
  obtain x1 t1 where t0: "t0 = x1 # t1" using a s by (cases t0) auto
  obtain x2 t2 where t1: "t1 = x2 # t2" using a s t0 by (cases t1) auto
  show ?thesis by (simp add: s t0 t1)
qed

lemma take4: "3 < length s \<Longrightarrow> take 4 s = [s ! 0, s ! 1, s ! 2, s ! 3]"
proof -
  assume a: "3 < length s"
  obtain x0 t0 where s: "s = x0 # t0" using a by (cases s) auto
  obtain x1 t1 where t0: "t0 = x1 # t1" using a s by (cases t0) auto
  obtain x2 t2 where t1: "t1 = x2 # t2" using a s t0 by (cases t1) auto
  obtain x3 t3 where t2: "t2 = x3 # t3" using a s t0 t1 by (cases t2) auto
  show ?thesis by (simp add: s t0 t1 t2)
qed

lemma contb_high: "contb c \<Longrightarrow> \<not> (of_char c :: int) < 0x80"
  by (simp add: contb_def)

lemma rune2_bounds:
  assumes "0xC0 \<le> b0" "b0 < 0xE0" "0x80 \<le> b1" "b1 \<le> 0xBF"
  shows "0 \<le> rune2 b0 b1" "rune2 b0 b1 \<le> 0x7FF"
  using assms by (simp_all add: rune2_eq)

lemma rune3_bounds:
  assumes "0xE0 \<le> b0" "b0 < 0xF0" "0x80 \<le> b1" "b1 \<le> 0xBF" "0x80 \<le> b2" "b2 \<le> 0xBF"
  shows "0 \<le> rune3 b0 b1 b2" "rune3 b0 b1 b2 \<le> 0xFFFF"
  using assms by (simp_all add: rune3_eq)

lemma decoderune_general:
  assumes "s \<noteq> []" "\<not> (of_char (hd s) :: int) < 0x80"
  shows "0x80 \<le> fst (decoderune s) \<and> fst (decoderune s) \<le> 0x10FFFF
    \<and> snd (decoderune s) \<le> length s
    \<and> (\<forall>x \<in> set (take (snd (decoderune s)) s). \<not> (of_char x :: int) < 0x80)"
proof -
  have h0: "\<not> (of_char (s ! 0) :: int) < 0x80"
    using assms by (simp add: hd_conv_nth)
  from decoderune_forms [OF assms(1)] consider
      (err) "decoderune s = (runeError, 1)"
    | (two) "1 < length s" "contb (s ! 1)"
        "0xC0 \<le> (of_char (s ! 0) :: int)" "(of_char (s ! 0) :: int) < 0xE0"
        "0x7F < rune2 (of_char (s ! 0)) (of_char (s ! 1))"
        "decoderune s = (rune2 (of_char (s ! 0)) (of_char (s ! 1)), 2)"
    | (three) "2 < length s" "contb (s ! 1)" "contb (s ! 2)"
        "0xE0 \<le> (of_char (s ! 0) :: int)" "(of_char (s ! 0) :: int) < 0xF0"
        "0x7FF < rune3 (of_char (s ! 0)) (of_char (s ! 1)) (of_char (s ! 2))"
        "\<not> (0xD800 \<le> rune3 (of_char (s ! 0)) (of_char (s ! 1)) (of_char (s ! 2))
            \<and> rune3 (of_char (s ! 0)) (of_char (s ! 1)) (of_char (s ! 2)) \<le> 0xDFFF)"
        "decoderune s = (rune3 (of_char (s ! 0)) (of_char (s ! 1)) (of_char (s ! 2)), 3)"
    | (four) "3 < length s" "contb (s ! 1)" "contb (s ! 2)" "contb (s ! 3)"
        "0xF0 \<le> (of_char (s ! 0) :: int)" "(of_char (s ! 0) :: int) < 0xF8"
        "0xFFFF < rune4 (of_char (s ! 0)) (of_char (s ! 1)) (of_char (s ! 2)) (of_char (s ! 3))"
        "rune4 (of_char (s ! 0)) (of_char (s ! 1)) (of_char (s ! 2)) (of_char (s ! 3)) \<le> 0x10FFFF"
        "decoderune s
           = (rune4 (of_char (s ! 0)) (of_char (s ! 1)) (of_char (s ! 2)) (of_char (s ! 3)), 4)"
    by blast
  then show ?thesis
  proof cases
    case err
    have "take 1 s = [s ! 0]" using assms(1) by (cases s) auto
    then show ?thesis using err h0 assms(1) by (simp add: Suc_le_eq)
  next
    case two
    have b1: "0x80 \<le> (of_char (s ! 1) :: int)" "(of_char (s ! 1) :: int) \<le> 0xBF"
      using two(2) by (simp_all add: contb_def)
    have "rune2 (of_char (s ! 0)) (of_char (s ! 1)) \<le> 0x7FF"
      by (rule rune2_bounds(2) [OF two(3,4) b1])
    then show ?thesis
      using two(1,2,5) h0 by (simp add: two(6) take2 [OF two(1)] contb_high)
  next
    case three
    have b1: "0x80 \<le> (of_char (s ! 1) :: int)" "(of_char (s ! 1) :: int) \<le> 0xBF"
      using three(2) by (simp_all add: contb_def)
    have b2: "0x80 \<le> (of_char (s ! 2) :: int)" "(of_char (s ! 2) :: int) \<le> 0xBF"
      using three(3) by (simp_all add: contb_def)
    have "rune3 (of_char (s ! 0)) (of_char (s ! 1)) (of_char (s ! 2)) \<le> 0xFFFF"
      by (rule rune3_bounds(2) [OF three(4,5) b1 b2])
    then show ?thesis
      using three(1,2,3,6) h0 by (simp add: three(8) take3 [OF three(1)] contb_high)
  next
    case four
    then show ?thesis
      using h0 by (simp add: four(9) take4 [OF four(1)] contb_high)
  qed
qed

lemma rangeRunes_step:
  assumes "s \<noteq> []" "\<not> (of_char (hd s) :: int) < 0x80"
  shows "rangeRunes s = fst (decoderune s) # rangeRunes (drop (snd (decoderune s)) s)"
  using assms by (cases s) (simp_all add: rangeRunes_multi)

lemma rangeRunes_range: "r \<in> set (rangeRunes s) \<Longrightarrow> 0 \<le> r \<and> r \<le> 0x10FFFF"
proof (induction s arbitrary: r rule: length_induct)
  case (1 s)
  have IH: "\<And>u x. length u < length s \<Longrightarrow> x \<in> set (rangeRunes u)
              \<Longrightarrow> 0 \<le> x \<and> x \<le> 0x10FFFF"
    using "1.IH" by blast
  show ?case
  proof (cases s)
    case Nil
    with "1.prems" show ?thesis by simp
  next
    case (Cons c t)
    show ?thesis
    proof (cases "(of_char c :: int) < 0x80")
      case True
      with "1.prems" Cons have "r = of_char c \<or> r \<in> set (rangeRunes t)"
        by (simp add: rangeRunes_ascii)
      then show ?thesis
      proof
        assume "r = of_char c"
        with True of_char_int_bounds [of c] show ?thesis by simp
      next
        assume "r \<in> set (rangeRunes t)"
        then show ?thesis using Cons by (intro IH [of t]) simp_all
      qed
    next
      case False
      then have ne: "s \<noteq> []" and hi: "\<not> (of_char (hd s) :: int) < 0x80"
        using Cons by simp_all
      note g = decoderune_general [OF ne hi]
      have sh: "length (drop (snd (decoderune s)) s) < length s"
        using ne decoderune_pos [of s] by simp
      from "1.prems" rangeRunes_step [OF ne hi]
      have "r = fst (decoderune s) \<or> r \<in> set (rangeRunes (drop (snd (decoderune s)) s))"
        by simp
      then show ?thesis
      proof
        assume "r = fst (decoderune s)"
        with g show ?thesis by simp
      next
        assume "r \<in> set (rangeRunes (drop (snd (decoderune s)) s))"
        with sh show ?thesis by (intro IH [of "drop (snd (decoderune s)) s"])
      qed
    qed
  qed
qed

lemma rangeRunes_ascii_filter:
  "filter (\<lambda>r. r < 0x80) (rangeRunes s)
     = map of_char (filter (\<lambda>c. (of_char c :: int) < 0x80) s)"
proof (induction s rule: length_induct)
  case (1 s)
  show ?case
  proof (cases s)
    case Nil
    then show ?thesis by simp
  next
    case (Cons c t)
    show ?thesis
    proof (cases "(of_char c :: int) < 0x80")
      case True
      moreover have "filter (\<lambda>r. r < 0x80) (rangeRunes t)
          = map of_char (filter (\<lambda>c. (of_char c :: int) < 0x80) t)"
        using "1.IH" Cons by simp
      ultimately show ?thesis using Cons by (simp add: rangeRunes_ascii)
    next
      case False
      then have ne: "s \<noteq> []" and hi: "\<not> (of_char (hd s) :: int) < 0x80"
        using Cons by simp_all
      note g = decoderune_general [OF ne hi]
      let ?w = "snd (decoderune s)"
      have sh: "length (drop ?w s) < length s"
        using ne decoderune_pos [of s] by simp
      have "filter (\<lambda>c. (of_char c :: int) < 0x80) s
          = filter (\<lambda>c. (of_char c :: int) < 0x80) (take ?w s)
            @ filter (\<lambda>c. (of_char c :: int) < 0x80) (drop ?w s)"
        by (simp only: filter_append [symmetric] append_take_drop_id)
      moreover have "filter (\<lambda>c. (of_char c :: int) < 0x80) (take ?w s) = []"
        using g by (simp add: filter_empty_conv)
      moreover have "filter (\<lambda>r. r < 0x80) (rangeRunes (drop ?w s))
          = map of_char (filter (\<lambda>c. (of_char c :: int) < 0x80) (drop ?w s))"
        using "1.IH" sh by blast
      moreover have "\<not> fst (decoderune s) < 0x80" using g by simp
      ultimately show ?thesis
        by (simp add: rangeRunes_step [OF ne hi])
    qed
  qed
qed

lemma foldl_splitStep:
  "(case foldl (splitStep kws) (result, token) rs of
      (result', token') \<Rightarrow>
        if token' \<noteq> [] then result' @ [classifyToken token' kws] else result')
   = result @ tokensFrom kws rs token"
  by (induction rs arbitrary: result token) (simp_all add: Let_def)

lemma splitByKeywords_tokensFrom:
  "splitByKeywords content kws = tokensFrom kws (rangeRunes content) []"
  using foldl_splitStep [of kws "[]" "[]" "rangeRunes content"]
  by (simp add: splitByKeywords_def)

lemma concat_tokensFrom:
  "concat (map Text (tokensFrom kws rs token)) = token @ concat (map encoderune rs)"
  by (induction rs arbitrary: token) (simp_all add: classifyToken_def)

subsection \<open>Separators are ASCII\<close>

lemma rangeRunes_all_ascii:
  "\<forall>c \<in> set s. (of_char c :: int) < 0x80 \<Longrightarrow> rangeRunes s = map of_char s"
  by (induction s) (simp_all add: rangeRunes_ascii)

lemma separators_ascii: "c \<in> set separators \<Longrightarrow> (of_char c :: int) < 0x80"
  by (auto simp add: separators_def)

lemma rangeRunes_separators: "rangeRunes separators = map of_char separators"
  by (rule rangeRunes_all_ascii) (simp add: separators_ascii)

lemma sep_iff: "ContainsRune separators r \<longleftrightarrow> (\<exists>c \<in> set separators. r = of_char c)"
  by (auto simp add: ContainsRune_def rangeRunes_separators)

lemma sep_of_char: "ContainsRune separators (of_char c) \<longleftrightarrow> c \<in> set separators"
  by (auto simp add: sep_iff)

lemma sep_encode:
  assumes "ContainsRune separators r"
  shows "\<exists>c \<in> set separators. r = of_char c \<and> encoderune r = [c]"
proof -
  from assms obtain c where c: "c \<in> set separators" "r = of_char c"
    by (auto simp add: sep_iff)
  then have "encoderune r = [c]"
    by (simp add: encoderune_of_char separators_ascii)
  with c show ?thesis by blast
qed

subsection \<open>The bytes of an encoded rune\<close>

lemma byte_high:
  "0x80 \<le> x \<Longrightarrow> x < 0x100 \<Longrightarrow> \<not> (of_char (char_of (x :: int)) :: int) < 0x80"
  by simp

lemma encoderune_high:
  assumes "0x80 \<le> r" "r \<le> 0x10FFFF" "c \<in> set (encoderune r)"
  shows "\<not> (of_char c :: int) < 0x80"
proof -
  have m: "\<And>k. 0 \<le> k mod (64 :: int) \<and> k mod 64 < 64" by simp
  consider (two) "r \<le> 0x7FF"
    | (sur) "0xD800 \<le> r" "r \<le> 0xDFFF"
    | (three) "0x7FF < r" "r \<le> 0xFFFF" "\<not> (0xD800 \<le> r \<and> r \<le> 0xDFFF)"
    | (four) "0xFFFF < r"
    by linarith
  then show ?thesis
  proof cases
    case two
    have lo: "0x7F < r" using assms(1) by simp
    have "0 \<le> r div 64" using assms(1) by (simp add: pos_imp_zdiv_nonneg_iff)
    moreover have "r div 64 \<le> 0x7FF div 64" using two by (intro zdiv_mono1) simp_all
    ultimately have l: "0x80 \<le> 0xC0 + r div 64" "0xC0 + r div 64 < 0x100" by simp_all
    have t: "0x80 \<le> 0x80 + r mod 64" "0x80 + r mod 64 < 0x100" using m [of r] by simp_all
    from assms(3) have "c = char_of (0xC0 + r div 64) \<or> c = char_of (0x80 + r mod 64)"
      by (simp add: encoderune_2 [OF lo two])
    then show ?thesis using byte_high [OF l] byte_high [OF t] by blast
  next
    case sur
    from assms(3) show ?thesis by (auto simp add: encoderune_surrogate [OF sur])
  next
    case three
    have "0 \<le> r div 4096" using assms(1) by (simp add: pos_imp_zdiv_nonneg_iff)
    moreover have "r div 4096 \<le> 0xFFFF div 4096" using three(2) by (intro zdiv_mono1) simp_all
    ultimately have l: "0x80 \<le> 0xE0 + r div 4096" "0xE0 + r div 4096 < 0x100" by simp_all
    have t1: "0x80 \<le> 0x80 + r div 64 mod 64" "0x80 + r div 64 mod 64 < 0x100"
      using m [of "r div 64"] by simp_all
    have t2: "0x80 \<le> 0x80 + r mod 64" "0x80 + r mod 64 < 0x100" using m [of r] by simp_all
    from assms(3) have "c = char_of (0xE0 + r div 4096) \<or> c = char_of (0x80 + r div 64 mod 64)
        \<or> c = char_of (0x80 + r mod 64)"
      by (simp add: encoderune_3 [OF three])
    then show ?thesis using byte_high [OF l] byte_high [OF t1] byte_high [OF t2] by blast
  next
    case four
    have "0 \<le> r div 262144" using assms(1) by (simp add: pos_imp_zdiv_nonneg_iff)
    moreover have "r div 262144 \<le> 0x10FFFF div 262144"
      using assms(2) by (intro zdiv_mono1) simp_all
    ultimately have l: "0x80 \<le> 0xF0 + r div 262144" "0xF0 + r div 262144 < 0x100"
      by simp_all
    have t1: "0x80 \<le> 0x80 + r div 4096 mod 64" "0x80 + r div 4096 mod 64 < 0x100"
      using m [of "r div 4096"] by simp_all
    have t2: "0x80 \<le> 0x80 + r div 64 mod 64" "0x80 + r div 64 mod 64 < 0x100"
      using m [of "r div 64"] by simp_all
    have t3: "0x80 \<le> 0x80 + r mod 64" "0x80 + r mod 64 < 0x100" using m [of r] by simp_all
    from assms(3) have "c = char_of (0xF0 + r div 262144)
        \<or> c = char_of (0x80 + r div 4096 mod 64) \<or> c = char_of (0x80 + r div 64 mod 64)
        \<or> c = char_of (0x80 + r mod 64)"
      by (simp add: encoderune_4 [OF four assms(2)])
    then show ?thesis
      using byte_high [OF l] byte_high [OF t1] byte_high [OF t2] byte_high [OF t3] by blast
  qed
qed

lemma encoderune_nonempty: "encoderune r \<noteq> []"
  by (simp add: encoderune_def Let_def)

lemma nonsep_encode:
  assumes "0 \<le> r" "r \<le> 0x10FFFF" "\<not> ContainsRune separators r"
  shows "set (encoderune r) \<inter> set separators = {}"
proof (cases "r < 0x80")
  case True
  have e: "encoderune r = [char_of r]" using assms(1) True by (simp add: encoderune_1)
  have "of_char (char_of r) = r" using assms(1) True by simp
  then have "char_of r \<notin> set separators"
    using assms(3) sep_of_char [of "char_of r"] by simp
  then show ?thesis by (simp add: e)
next
  case False
  then have "\<forall>c \<in> set (encoderune r). \<not> (of_char c :: int) < 0x80"
    using encoderune_high [of r] assms(2) by simp
  then show ?thesis using separators_ascii by blast
qed

subsection \<open>Invariants of the tokenizer loop\<close>

lemma isKeywordLoop_iff: "isKeywordLoop token kws \<longleftrightarrow> token \<in> set kws"
  by (induction kws) auto

lemma classifyToken_sel [simp]:
  "Text (classifyToken token kws) = token"
  "IsKeyword (classifyToken token kws) = (token \<in> set kws)"
  by (simp_all add: classifyToken_def isKeywordLoop_iff)

lemma tokensFrom_shape:
  assumes "\<forall>r \<in> set rs. 0 \<le> r \<and> r \<le> 0x10FFFF" "set token \<inter> set separators = {}"
    "p \<in> set (tokensFrom kws rs token)"
  shows "((\<exists>c \<in> set separators. Text p = [c]) \<and> \<not> IsKeyword p)
       \<or> (Text p \<noteq> [] \<and> set (Text p) \<inter> set separators = {}
          \<and> IsKeyword p = (Text p \<in> set kws))"
  using assms
proof (induction rs arbitrary: token)
  case Nil
  then show ?case by (auto split: if_splits)
next
  case (Cons r rs)
  show ?case
  proof (cases "ContainsRune separators r")
    case True
    from sep_encode [OF True] obtain c where c: "c \<in> set separators" "encoderune r = [c]"
      by blast
    from Cons.prems(3) True
    have "(token \<noteq> [] \<and> p = classifyToken token kws)
        \<or> p = \<lparr>Text = encoderune r, IsKeyword = False\<rparr> \<or> p \<in> set (tokensFrom kws rs [])"
      by (auto split: if_splits)
    then show ?thesis
    proof (elim disjE)
      assume "token \<noteq> [] \<and> p = classifyToken token kws"
      with Cons.prems(2) show ?thesis by simp
    next
      assume "p = \<lparr>Text = encoderune r, IsKeyword = False\<rparr>"
      with c show ?thesis by simp
    next
      assume "p \<in> set (tokensFrom kws rs [])"
      with Cons.IH [of "[]"] Cons.prems(1) show ?thesis by simp
    qed
  next
    case False
    have "set (encoderune r) \<inter> set separators = {}"
      using Cons.prems(1) False by (intro nonsep_encode) simp_all
    with Cons.prems(2) have d: "set (token @ encoderune r) \<inter> set separators = {}" by auto
    from Cons.prems(3) False have "p \<in> set (tokensFrom kws rs (token @ encoderune r))" by simp
    with Cons.IH [OF _ d] Cons.prems(1) show ?thesis by simp
  qed
qed

lemma tokensFrom_adjacent:
  "successively (\<lambda>a b. (\<exists>c \<in> set separators. a = [c]) \<or> (\<exists>c \<in> set separators. b = [c]))
     (map Text (tokensFrom kws rs token))"
proof (induction rs arbitrary: token)
  case Nil
  then show ?case by simp
next
  case (Cons r rs)
  show ?case
  proof (cases "ContainsRune separators r")
    case True
    from sep_encode [OF True] obtain c where c: "c \<in> set separators" "encoderune r = [c]"
      by blast
    with True Cons.IH [of "[]"] show ?thesis
      by (auto simp add: successively_Cons)
  next
    case False
    with Cons.IH show ?thesis by simp
  qed
qed

lemma tokensFrom_separators:
  assumes "\<forall>r \<in> set rs. 0 \<le> r \<and> r \<le> 0x10FFFF" "set token \<inter> set separators = {}"
  shows "filter (\<lambda>t. \<exists>c \<in> set separators. t = [c]) (map Text (tokensFrom kws rs token))
       = map encoderune (filter (ContainsRune separators) rs)"
  using assms
proof (induction rs arbitrary: token)
  case Nil
  then show ?case by auto
next
  case (Cons r rs)
  show ?case
  proof (cases "ContainsRune separators r")
    case True
    from sep_encode [OF True] obtain c where c: "c \<in> set separators" "encoderune r = [c]"
      by blast
    have "\<not> (\<exists>c \<in> set separators. token = [c])" using Cons.prems(2) by auto
    with True c Cons.IH [of "[]"] Cons.prems(1) show ?thesis by simp
  next
    case False
    have "set (encoderune r) \<inter> set separators = {}"
      using Cons.prems(1) False by (intro nonsep_encode) simp_all
    with Cons.prems(2) have d: "set (token @ encoderune r) \<inter> set separators = {}" by auto
    from Cons.IH [OF _ d] Cons.prems(1) False show ?thesis by simp
  qed
qed

lemma tokensFrom_only_separators:
  "\<forall>r \<in> set rs. ContainsRune separators r \<Longrightarrow>
   tokensFrom kws rs [] = map (\<lambda>r. \<lparr>Text = encoderune r, IsKeyword = False\<rparr>) rs"
  by (induction rs) simp_all

lemma tokensFrom_has_separator:
  "r \<in> set rs \<Longrightarrow> ContainsRune separators r \<Longrightarrow>
   \<lparr>Text = encoderune r, IsKeyword = False\<rparr> \<in> set (tokensFrom kws rs token)"
  by (induction rs arbitrary: token) auto

subsection \<open>The tokenizer on bytes\<close>

lemma separator_runes:
  "map encoderune (filter (ContainsRune separators) (rangeRunes s))
     = map (\<lambda>c. [c]) (filter (\<lambda>c. c \<in> set separators) s)"
proof -
  have a: "ContainsRune separators r \<Longrightarrow> r < 0x80" for r
    using separators_ascii by (auto simp add: sep_iff)
  have "filter (ContainsRune separators) (rangeRunes s)
      = filter (ContainsRune separators) (filter (\<lambda>r. r < 0x80) (rangeRunes s))"
    using a by (auto intro: filter_cong)
  also have "\<dots> = map of_char (filter (\<lambda>c. c \<in> set separators)
                       (filter (\<lambda>c. (of_char c :: int) < 0x80) s))"
    by (simp add: rangeRunes_ascii_filter filter_map o_def sep_of_char)
  also have "\<dots> = map of_char (filter (\<lambda>c. c \<in> set separators) s)"
    using separators_ascii by (auto intro: arg_cong [where f = "map of_char"] filter_cong)
  finally have "map encoderune (filter (ContainsRune separators) (rangeRunes s))
      = map (\<lambda>c. encoderune (of_char c)) (filter (\<lambda>c. c \<in> set separators) s)"
    by (simp add: o_def)
  also have "\<dots> = map (\<lambda>c. [c]) (filter (\<lambda>c. c \<in> set separators) s)"
    by (rule map_cong) (simp_all add: encoderune_of_char separators_ascii)
  finally show ?thesis .
qed

lemma ascii_byte_rune:
  assumes "c \<in> set s" "(of_char c :: int) < 0x80"
  shows "of_char c \<in> set (rangeRunes s)"
proof -
  have "of_char c \<in> set (map of_char (filter (\<lambda>c. (of_char c :: int) < 0x80) s))"
    using assms by simp
  then have "of_char c \<in> set (filter (\<lambda>r. r < 0x80) (rangeRunes s))"
    by (simp only: rangeRunes_ascii_filter)
  then show ?thesis by simp
qed

lemma splitByKeywords_shape:
  assumes "p \<in> set (splitByKeywords content kws)"
  shows "((\<exists>c \<in> set separators. Text p = [c]) \<and> \<not> IsKeyword p)
       \<or> (Text p \<noteq> [] \<and> set (Text p) \<inter> set separators = {}
          \<and> IsKeyword p = (Text p \<in> set kws))"
proof (rule tokensFrom_shape)
  show "\<forall>r \<in> set (rangeRunes content). 0 \<le> r \<and> r \<le> 0x10FFFF"
    using rangeRunes_range by blast
  show "set [] \<inter> set separators = {}" by simp
  show "p \<in> set (tokensFrom kws (rangeRunes content) [])"
    using assms by (simp add: splitByKeywords_tokensFrom)
qed

lemma splitByKeywords_flag:
  assumes "p \<in> set (splitByKeywords content codeKeywords)"
  shows "IsKeyword p = (Text p \<in> set codeKeywords)"
proof -
  have "[c] \<notin> set codeKeywords" for c by (simp add: codeKeywords_def)
  with splitByKeywords_shape [OF assms] show ?thesis by auto
qed

subsection \<open>Symbols and strings\<close>

lemma ContainsRune_of_char:
  assumes "\<forall>c \<in> set s. (of_char c :: int) < 0x80"
  shows "ContainsRune s (of_char c) \<longleftrightarrow> c \<in> set s"
proof -
  have "ContainsRune s (of_char c) \<longleftrightarrow> (of_char c :: int) \<in> of_char ` set s"
    by (simp only: ContainsRune_def rangeRunes_all_ascii [OF assms] set_map)
  also have "\<dots> \<longleftrightarrow> c \<in> set s"
    by (rule inj_image_mem_iff [OF inj_of_char])
  finally show ?thesis .
qed

lemma isSymbol_iff: "isSymbol text \<longleftrightarrow> (\<exists>c \<in> set ''(),;{}''. text = [c])"
proof -
  have "isSymbol text \<longleftrightarrow> length text = 1 \<and> text ! 0 \<in> set ''(),;{}''"
    unfolding isSymbol_def by (subst ContainsRune_of_char) simp_all
  also have "\<dots> \<longleftrightarrow> (\<exists>c \<in> set ''(),;{}''. text = [c])"
    by (cases "text") auto
  finally show ?thesis .
qed

lemma drop_last: "text \<noteq> [] \<Longrightarrow> drop (length text - 1) text = [last text]"
  by (induction "text") (auto simp add: drop_Cons')

lemma isString_iff:
  "isString text \<longleftrightarrow> text \<noteq> [] \<and> hd text = CHR 0x22 \<and> last text = CHR 0x22"
proof (cases "text")
  case Nil
  then show ?thesis by (simp add: isString_def HasPrefix_def)
next
  case (Cons a t)
  then have ne: "text \<noteq> []" by simp
  show ?thesis
    using drop_last [OF ne] Cons
    by (simp add: isString_def HasPrefix_def HasSuffix_def)
qed

subsection \<open>The stylist loop\<close>

lemma styleStep_eq:
  "styleStep span th styledSpans part
     = styledSpans @ [span\<lparr>Color := partColor th part, Content := Text part\<rparr>]"
  by (simp add: styleStep_def partColor_def Let_def)

lemma foldl_styleStep:
  "foldl (styleStep span th) styledSpans parts
     = styledSpans @ map (\<lambda>part. span\<lparr>Color := partColor th part, Content := Text part\<rparr>) parts"
  by (induction parts arbitrary: styledSpans) (simp_all add: styleStep_eq)

lemma splitCodeContent_map:
  "splitCodeContent span th
     = map (\<lambda>part. span\<lparr>Color := partColor th part, Content := Text part\<rparr>)
         (splitByKeywords (Content span) codeKeywords)"
  by (simp add: splitCodeContent_def Let_def foldl_styleStep)

lemma splitCodeContent_nth:
  "i < length (splitByKeywords (Content span) codeKeywords) \<Longrightarrow>
   splitCodeContent span th ! i
     = span\<lparr>Color := partColor th (splitByKeywords (Content span) codeKeywords ! i),
            Content := Text (splitByKeywords (Content span) codeKeywords ! i)\<rparr>"
  by (simp add: splitCodeContent_map)

subsection \<open>The period\<close>

lemma period_token_present:
  assumes a: "CHR ''.'' \<in> set content"
  shows "\<lparr>Text = ''.'', IsKeyword = False\<rparr> \<in> set (splitByKeywords content kws)"
proof -
  have sep: "CHR ''.'' \<in> set separators" by (simp add: separators_def)
  have asc: "(of_char (CHR ''.'') :: int) < 0x80" by simp
  have "of_char (CHR ''.'') \<in> set (rangeRunes content)"
    by (rule ascii_byte_rune [OF a asc])
  moreover have "ContainsRune separators (of_char (CHR ''.''))"
    using sep by (simp only: sep_of_char)
  ultimately have "\<lparr>Text = encoderune (of_char (CHR ''.'')), IsKeyword = False\<rparr>
      \<in> set (tokensFrom kws (rangeRunes content) [])"
    by (rule tokensFrom_has_separator)
  then show ?thesis
    by (simp only: splitByKeywords_tokensFrom encoderune_of_char [OF asc])
qed

lemma period_token_alone:
  assumes p: "p \<in> set (splitByKeywords content kws)" and d: "CHR ''.'' \<in> set (Text p)"
  shows "Text p = ''.'' \<and> \<not> IsKeyword p"
proof -
  have sep: "CHR ''.'' \<in> set separators" by (simp add: separators_def)
  from splitByKeywords_shape [OF p] consider
      (single) c where "c \<in> set separators" "Text p = [c]" "\<not> IsKeyword p"
    | (run) "set (Text p) \<inter> set separators = {}"
    by blast
  then show ?thesis
  proof cases
    case single
    with d show ?thesis by simp
  next
    case run
    with sep d show ?thesis by blast
  qed
qed

lemma period_token_colour:
  assumes i: "i < length (splitByKeywords (Content span) codeKeywords)"
    and t: "Text (splitByKeywords (Content span) codeKeywords ! i) = ''.''"
  shows "Color (splitCodeContent span th ! i) = Fg (Palette th)"
proof -
  let ?p = "splitByKeywords (Content span) codeKeywords ! i"
  have sym: "\<not> isSymbol ''.''" by (simp add: isSymbol_iff)
  have str: "\<not> isString ''.''" by (simp add: isString_iff)
  have "?p \<in> set (splitByKeywords (Content span) codeKeywords)"
    using i by (rule nth_mem)
  moreover have "CHR ''.'' \<in> set (Text ?p)" by (simp only: t) simp
  ultimately have k: "\<not> IsKeyword ?p"
    using period_token_alone by blast
  have "partColor th ?p = Fg (Palette th)"
    using k sym str by (simp add: partColor_def t)
  then show ?thesis
    by (simp only: splitCodeContent_nth [OF i]) simp
qed

subsection \<open>Ill-formed input comes back longer\<close>

lemma encoderune_runeError: "length (encoderune runeError) = 3"
  by (simp add: encoderune_3)

lemma ValidString_head2:
  assumes "1 < length s" "contb (s ! 1)"
    "0xC0 \<le> (of_char (s ! 0) :: int)" "(of_char (s ! 0) :: int) < 0xE0"
    "0x7F < rune2 (of_char (s ! 0)) (of_char (s ! 1))"
  shows "ValidString s = ValidString (drop 2 s)"
proof -
  obtain c0 t0 where s: "s = c0 # t0" using assms(1) by (cases s) auto
  obtain c1 t1 where t0: "t0 = c1 # t1" using assms(1) s by (cases t0) auto
  have c1: "contb c1" using assms(2) by (simp add: s t0)
  then have b1: "0x80 \<le> (of_char c1 :: int)" "(of_char c1 :: int) \<le> 0xBF"
    by (simp_all add: contb_def)
  have b0: "0xC0 \<le> (of_char c0 :: int)" "(of_char c0 :: int) < 0xE0"
    using assms(3,4) by (simp_all add: s)
  define x y :: int where "x = of_char c0 - 0xC0" and "y = of_char c1 - 0x80"
  have r: "rune2 (of_char c0) (of_char c1) = x * 64 + y"
    unfolding x_def y_def by (rule rune2_eq [OF b0 b1])
  have yb: "0 \<le> y" "y < 64" using b1 by (simp_all add: y_def)
  have "0x7F < x * 64 + y" using assms(5) by (simp add: s t0 r)
  with yb have "2 \<le> x" by linarith
  then have "0xC2 \<le> (of_char c0 :: int)" by (simp add: x_def)
  with b0 c1 show ?thesis by (simp add: s t0 Let_def)
qed

lemma ValidString_head3:
  assumes "2 < length s" "contb (s ! 1)" "contb (s ! 2)"
    "0xE0 \<le> (of_char (s ! 0) :: int)" "(of_char (s ! 0) :: int) < 0xF0"
    "0x7FF < rune3 (of_char (s ! 0)) (of_char (s ! 1)) (of_char (s ! 2))"
    "\<not> (0xD800 \<le> rune3 (of_char (s ! 0)) (of_char (s ! 1)) (of_char (s ! 2))
        \<and> rune3 (of_char (s ! 0)) (of_char (s ! 1)) (of_char (s ! 2)) \<le> 0xDFFF)"
  shows "ValidString s = ValidString (drop 3 s)"
proof -
  obtain c0 t0 where s: "s = c0 # t0" using assms(1) by (cases s) auto
  obtain c1 t1 where t0: "t0 = c1 # t1" using assms(1) s by (cases t0) auto
  obtain c2 t2 where t1: "t1 = c2 # t2" using assms(1) s t0 by (cases t1) auto
  have c1: "contb c1" and c2: "contb c2" using assms(2,3) by (simp_all add: s t0 t1)
  then have b1: "0x80 \<le> (of_char c1 :: int)" "(of_char c1 :: int) \<le> 0xBF"
    and b2: "0x80 \<le> (of_char c2 :: int)" "(of_char c2 :: int) \<le> 0xBF"
    by (simp_all add: contb_def)
  have b0: "0xE0 \<le> (of_char c0 :: int)" "(of_char c0 :: int) < 0xF0"
    using assms(4,5) by (simp_all add: s)
  define x y1 y2 :: int
    where "x = of_char c0 - 0xE0" and "y1 = of_char c1 - 0x80" and "y2 = of_char c2 - 0x80"
  have r: "rune3 (of_char c0) (of_char c1) (of_char c2) = x * 4096 + y1 * 64 + y2"
    unfolding x_def y1_def y2_def by (rule rune3_eq [OF b0 b1 b2])
  have yb: "0 \<le> y1" "y1 < 64" "0 \<le> y2" "y2 < 64" and xb: "0 \<le> x" "x < 16"
    using b0 b1 b2 by (simp_all add: x_def y1_def y2_def)
  have lo: "0x7FF < x * 4096 + y1 * 64 + y2"
    using assms(6) by (simp add: s t0 t1 r)
  have ns: "\<not> (0xD800 \<le> x * 4096 + y1 * 64 + y2 \<and> x * 4096 + y1 * 64 + y2 \<le> 0xDFFF)"
    using assms(7) by (simp add: s t0 t1 r)
  have first: "x = 0 \<Longrightarrow> 32 \<le> y1" using lo yb by linarith
  have sur: "x = 13 \<Longrightarrow> y1 \<le> 31" using ns yb by linarith
  have e0: "(of_char c0 :: int) = 0xE0 \<longleftrightarrow> x = 0" and ed: "(of_char c0 :: int) = 0xED \<longleftrightarrow> x = 13"
    by (simp_all add: x_def)
  have "(if (of_char c0 :: int) = 0xE0 then 0xA0 else 0x80) \<le> (of_char c1 :: int)"
    using first b1 by (simp add: e0 y1_def)
  moreover have "(of_char c1 :: int) \<le> (if (of_char c0 :: int) = 0xED then 0x9F else 0xBF)"
    using sur b1 by (simp add: ed y1_def)
  ultimately show ?thesis
    using b0 c2 by (simp add: s t0 t1 Let_def)
qed

lemma ValidString_head4:
  assumes "3 < length s" "contb (s ! 1)" "contb (s ! 2)" "contb (s ! 3)"
    "0xF0 \<le> (of_char (s ! 0) :: int)" "(of_char (s ! 0) :: int) < 0xF8"
    "0xFFFF < rune4 (of_char (s ! 0)) (of_char (s ! 1)) (of_char (s ! 2)) (of_char (s ! 3))"
    "rune4 (of_char (s ! 0)) (of_char (s ! 1)) (of_char (s ! 2)) (of_char (s ! 3)) \<le> 0x10FFFF"
  shows "ValidString s = ValidString (drop 4 s)"
proof -
  obtain c0 t0 where s: "s = c0 # t0" using assms(1) by (cases s) auto
  obtain c1 t1 where t0: "t0 = c1 # t1" using assms(1) s by (cases t0) auto
  obtain c2 t2 where t1: "t1 = c2 # t2" using assms(1) s t0 by (cases t1) auto
  obtain c3 t3 where t2: "t2 = c3 # t3" using assms(1) s t0 t1 by (cases t2) auto
  have c1: "contb c1" and c2: "contb c2" and c3: "contb c3"
    using assms(2,3,4) by (simp_all add: s t0 t1 t2)
  then have b1: "0x80 \<le> (of_char c1 :: int)" "(of_char c1 :: int) \<le> 0xBF"
    and b2: "0x80 \<le> (of_char c2 :: int)" "(of_char c2 :: int) \<le> 0xBF"
    and b3: "0x80 \<le> (of_char c3 :: int)" "(of_char c3 :: int) \<le> 0xBF"
    by (simp_all add: contb_def)
  have b0: "0xF0 \<le> (of_char c0 :: int)" "(of_char c0 :: int) < 0xF8"
    using assms(5,6) by (simp_all add: s)
  define x y1 y2 y3 :: int
    where "x = of_char c0 - 0xF0" and "y1 = of_char c1 - 0x80"
      and "y2 = of_char c2 - 0x80" and "y3 = of_char c3 - 0x80"
  have r: "rune4 (of_char c0) (of_char c1) (of_char c2) (of_char c3)
             = x * 262144 + y1 * 4096 + y2 * 64 + y3"
    unfolding x_def y1_def y2_def y3_def by (rule rune4_eq [OF b0 b1 b2 b3])
  have yb: "0 \<le> y1" "y1 < 64" "0 \<le> y2" "y2 < 64" "0 \<le> y3" "y3 < 64"
    and xb: "0 \<le> x" "x < 8"
    using b0 b1 b2 b3 by (simp_all add: x_def y1_def y2_def y3_def)
  have lo: "0xFFFF < x * 262144 + y1 * 4096 + y2 * 64 + y3"
    using assms(7) by (simp add: s t0 t1 t2 r)
  have hi: "x * 262144 + y1 * 4096 + y2 * 64 + y3 \<le> 0x10FFFF"
    using assms(8) by (simp add: s t0 t1 t2 r)
  have first: "x = 0 \<Longrightarrow> 16 \<le> y1" using lo yb by linarith
  have top: "x \<le> 4" using hi yb by linarith
  have last: "x = 4 \<Longrightarrow> y1 \<le> 15" using hi yb by linarith
  have f0: "(of_char c0 :: int) = 0xF0 \<longleftrightarrow> x = 0" and f4: "(of_char c0 :: int) = 0xF4 \<longleftrightarrow> x = 4"
    by (simp_all add: x_def)
  have "(if (of_char c0 :: int) = 0xF0 then 0x90 else 0x80) \<le> (of_char c1 :: int)"
    using first b1 by (simp add: f0 y1_def)
  moreover have "(of_char c1 :: int) \<le> (if (of_char c0 :: int) = 0xF4 then 0x8F else 0xBF)"
    using last b1 by (simp add: f4 y1_def)
  moreover have "(of_char c0 :: int) \<le> 0xF4" using top by (simp add: x_def)
  ultimately show ?thesis
    using b0 c2 c3 by (simp add: s t0 t1 t2 Let_def)
qed

lemma reencode_step:
  assumes "s \<noteq> []" "\<not> (of_char (hd s) :: int) < 0x80"
  shows "(snd (decoderune s) = 1 \<and> length (encoderune (fst (decoderune s))) = 3)
       \<or> (length (encoderune (fst (decoderune s))) = snd (decoderune s)
          \<and> ValidString s = ValidString (drop (snd (decoderune s)) s))"
proof -
  from decoderune_forms [OF assms(1)] consider
      (err) "decoderune s = (runeError, 1)"
    | (two) "1 < length s" "contb (s ! 1)"
        "0xC0 \<le> (of_char (s ! 0) :: int)" "(of_char (s ! 0) :: int) < 0xE0"
        "0x7F < rune2 (of_char (s ! 0)) (of_char (s ! 1))"
        "decoderune s = (rune2 (of_char (s ! 0)) (of_char (s ! 1)), 2)"
    | (three) "2 < length s" "contb (s ! 1)" "contb (s ! 2)"
        "0xE0 \<le> (of_char (s ! 0) :: int)" "(of_char (s ! 0) :: int) < 0xF0"
        "0x7FF < rune3 (of_char (s ! 0)) (of_char (s ! 1)) (of_char (s ! 2))"
        "\<not> (0xD800 \<le> rune3 (of_char (s ! 0)) (of_char (s ! 1)) (of_char (s ! 2))
            \<and> rune3 (of_char (s ! 0)) (of_char (s ! 1)) (of_char (s ! 2)) \<le> 0xDFFF)"
        "decoderune s = (rune3 (of_char (s ! 0)) (of_char (s ! 1)) (of_char (s ! 2)), 3)"
    | (four) "3 < length s" "contb (s ! 1)" "contb (s ! 2)" "contb (s ! 3)"
        "0xF0 \<le> (of_char (s ! 0) :: int)" "(of_char (s ! 0) :: int) < 0xF8"
        "0xFFFF < rune4 (of_char (s ! 0)) (of_char (s ! 1)) (of_char (s ! 2)) (of_char (s ! 3))"
        "rune4 (of_char (s ! 0)) (of_char (s ! 1)) (of_char (s ! 2)) (of_char (s ! 3)) \<le> 0x10FFFF"
        "decoderune s
           = (rune4 (of_char (s ! 0)) (of_char (s ! 1)) (of_char (s ! 2)) (of_char (s ! 3)), 4)"
    by blast
  then show ?thesis
  proof cases
    case err
    then show ?thesis by (simp add: encoderune_runeError)
  next
    case two
    have b1: "0x80 \<le> (of_char (s ! 1) :: int)" "(of_char (s ! 1) :: int) \<le> 0xBF"
      using two(2) by (simp_all add: contb_def)
    have hi: "rune2 (of_char (s ! 0)) (of_char (s ! 1)) \<le> 0x7FF"
      by (rule rune2_bounds(2) [OF two(3,4) b1])
    have "length (encoderune (rune2 (of_char (s ! 0)) (of_char (s ! 1)))) = 2"
      by (simp only: encoderune_2 [OF two(5) hi]) simp
    moreover have "ValidString s = ValidString (drop 2 s)"
      by (rule ValidString_head2 [OF two(1-5)])
    ultimately show ?thesis by (simp add: two(6))
  next
    case three
    have b1: "0x80 \<le> (of_char (s ! 1) :: int)" "(of_char (s ! 1) :: int) \<le> 0xBF"
      using three(2) by (simp_all add: contb_def)
    have b2: "0x80 \<le> (of_char (s ! 2) :: int)" "(of_char (s ! 2) :: int) \<le> 0xBF"
      using three(3) by (simp_all add: contb_def)
    have hi: "rune3 (of_char (s ! 0)) (of_char (s ! 1)) (of_char (s ! 2)) \<le> 0xFFFF"
      by (rule rune3_bounds(2) [OF three(4,5) b1 b2])
    have "length (encoderune (rune3 (of_char (s ! 0)) (of_char (s ! 1)) (of_char (s ! 2)))) = 3"
      by (simp only: encoderune_3 [OF three(6) hi three(7)]) simp
    moreover have "ValidString s = ValidString (drop 3 s)"
      by (rule ValidString_head3 [OF three(1-7)])
    ultimately show ?thesis by (simp add: three(8))
  next
    case four
    have "length (encoderune
        (rune4 (of_char (s ! 0)) (of_char (s ! 1)) (of_char (s ! 2)) (of_char (s ! 3)))) = 4"
      by (simp only: encoderune_4 [OF four(7,8)]) simp
    moreover have "ValidString s = ValidString (drop 4 s)"
      by (rule ValidString_head4 [OF four(1-8)])
    ultimately show ?thesis by (simp add: four(9))
  qed
qed

lemma reencode_length:
  "length s \<le> length (concat (map encoderune (rangeRunes s)))
   \<and> (\<not> ValidString s \<longrightarrow> length s < length (concat (map encoderune (rangeRunes s))))"
proof (induction s rule: length_induct)
  case (1 s)
  have IH: "\<And>u. length u < length s \<Longrightarrow>
      length u \<le> length (concat (map encoderune (rangeRunes u)))
      \<and> (\<not> ValidString u \<longrightarrow> length u < length (concat (map encoderune (rangeRunes u))))"
    using "1.IH" by blast
  show ?case
  proof (cases s)
    case Nil
    then show ?thesis by simp
  next
    case (Cons c t)
    show ?thesis
    proof (cases "(of_char c :: int) < 0x80")
      case True
      have "length t < length s" using Cons by simp
      from IH [OF this] True Cons show ?thesis
        by (simp add: rangeRunes_ascii encoderune_of_char)
    next
      case False
      then have ne: "s \<noteq> []" and hi: "\<not> (of_char (hd s) :: int) < 0x80"
        using Cons by simp_all
      define w where "w = snd (decoderune s)"
      define rest where "rest = drop w s"
      define e where "e = length (encoderune (fst (decoderune s)))"
      define n m where "n = length s" and "m = length rest"
      define L Lr where "L = length (concat (map encoderune (rangeRunes s)))"
        and "Lr = length (concat (map encoderune (rangeRunes rest)))"
      have wpos: "0 < w" unfolding w_def by (rule decoderune_pos)
      have wl: "w \<le> length s"
        using decoderune_general [OF ne hi] by (simp add: w_def)
      have sh: "length rest < length s" using ne wpos by (simp add: rest_def)
      have len: "n = w + m" using wl by (simp add: n_def m_def rest_def)
      have out: "L = e + Lr"
        by (simp add: L_def Lr_def e_def rest_def w_def rangeRunes_step [OF ne hi])
      from IH [OF sh] have ih: "m \<le> Lr" "\<not> ValidString rest \<Longrightarrow> m < Lr"
        by (simp_all add: m_def Lr_def)
      from reencode_step [OF ne hi]
      have "(w = 1 \<and> e = 3) \<or> (e = w \<and> ValidString s = ValidString rest)"
        by (simp add: w_def e_def rest_def)
      then have "n \<le> L \<and> (\<not> ValidString s \<longrightarrow> n < L)"
      proof
        assume "w = 1 \<and> e = 3"
        with ih(1) len out show ?thesis by linarith
      next
        assume a: "e = w \<and> ValidString s = ValidString rest"
        show ?thesis
        proof (intro conjI impI)
          show "n \<le> L" using a ih(1) len out by linarith
          assume "\<not> ValidString s"
          with a have "\<not> ValidString rest" by simp
          from ih(2) [OF this] a len out show "n < L" by linarith
        qed
      qed
      then show ?thesis unfolding n_def L_def .
    qed
  qed
qed

lemma splitByKeywords_ill_formed:
  "\<not> ValidString content \<Longrightarrow>
   length content < length (concat (map Text (splitByKeywords content kws)))"
  using reencode_length [of content]
  by (simp add: splitByKeywords_tokensFrom concat_tokensFrom)

section \<open>The tokenizer is lossless on well-formed text\<close>

text \<open>
  C1. Concatenating, in order, the \<open>Text\<close> fields of the tokens returned by
  \<open>splitByKeywords\<close> gives back the input string. As stated, for every input string,
  this fails: a byte that is not part of a well-formed UTF-8 sequence is read by the
  range loop as U+FFFD and written to the token as the three bytes EF BF BD. The
  counterexample is the one-byte string FF.
\<close>

theorem splitByKeywords_lossless_counterexample:
  "concat (map Text (splitByKeywords [CHR 0xFF] codeKeywords)) \<noteq> [CHR 0xFF]"
  by code_simp

text \<open>
  C1, amended. For every input string that is well-formed UTF-8 (and every keyword
  list), concatenating in order the \<open>Text\<close> fields of the tokens returned by
  \<open>splitByKeywords\<close> yields exactly the input string.
\<close>

theorem splitByKeywords_lossless:
  "ValidString content \<Longrightarrow> concat (map Text (splitByKeywords content kws)) = content"
  by (simp add: splitByKeywords_tokensFrom concat_tokensFrom ValidString_roundtrip)

theorem splitByKeywords_lossless_witness:
  "ValidString (''f(x, '' @ [CHR 0xC3, CHR 0xA9, CHR 0xE2, CHR 0x82, CHR 0xAC] @ '');'')
   \<and> concat (map Text (splitByKeywords
         (''f(x, '' @ [CHR 0xC3, CHR 0xA9, CHR 0xE2, CHR 0x82, CHR 0xAC] @ '');'') codeKeywords))
       = ''f(x, '' @ [CHR 0xC3, CHR 0xA9, CHR 0xE2, CHR 0x82, CHR 0xAC] @ '');''"
proof -
  have v: "ValidString (''f(x, '' @ [CHR 0xC3, CHR 0xA9, CHR 0xE2, CHR 0x82, CHR 0xAC] @ '');'')"
    by (simp add: contb_def)
  from splitByKeywords_lossless [OF v, of codeKeywords] v show ?thesis by simp
qed

section \<open>The classifier\<close>

text \<open>
  C2. With the keyword list \<open>func\<close>, \<open>main\<close>, \<open>Println\<close>, \<open>classifyToken\<close> flags a
  token as a keyword exactly when the token is equal, as a whole string and byte for
  byte, to one of the three; the token's text is returned unchanged. A different case
  (\<open>Func\<close>), a proper prefix (\<open>fun\<close>) and an extension (\<open>funcs\<close>) are not keywords.
\<close>

theorem classifyToken_exact:
  "IsKeyword (classifyToken token codeKeywords)
     = (token = ''func'' \<or> token = ''main'' \<or> token = ''Println'')
   \<and> Text (classifyToken token codeKeywords) = token
   \<and> IsKeyword (classifyToken ''Func'' codeKeywords) = False
   \<and> IsKeyword (classifyToken ''fun'' codeKeywords) = False
   \<and> IsKeyword (classifyToken ''funcs'' codeKeywords) = False"
  by (auto simp add: classifyToken_def codeKeywords_def)

section \<open>The stylist\<close>

lemma sample_tokens:
  "splitByKeywords ''func main() {'' codeKeywords =
     [\<lparr>Text = ''func'', IsKeyword = True\<rparr>, \<lparr>Text = '' '', IsKeyword = False\<rparr>,
      \<lparr>Text = ''main'', IsKeyword = True\<rparr>, \<lparr>Text = ''('', IsKeyword = False\<rparr>,
      \<lparr>Text = '')'', IsKeyword = False\<rparr>, \<lparr>Text = '' '', IsKeyword = False\<rparr>,
      \<lparr>Text = ''{'', IsKeyword = False\<rparr>]"
  by code_simp

text \<open>
  C3. For the token at every position \<open>i\<close> of the tokenizer's output, the colour of the
  styled segment at position \<open>i\<close> is the one selected by testing, in this order, the
  keyword flag, \<open>isSymbol\<close>, \<open>isString\<close>, and otherwise the default: exactly one
  colour. In particular a token flagged as a keyword gets the theme's contrast colour;
  a token is flagged exactly when its text is one of the keywords; and no keyword of the
  fixed list is a one-character symbol.
\<close>

theorem stylist_precedence:
  assumes "i < length (splitByKeywords (Content span) codeKeywords)"
    and "part = splitByKeywords (Content span) codeKeywords ! i"
  shows "Color (splitCodeContent span th ! i) =
           (if IsKeyword part then ContrastBg (Palette th)
            else if isSymbol (Text part) then symbolColor
            else if isString (Text part) then stringColor
            else Fg (Palette th))
       \<and> (IsKeyword part \<longrightarrow> Color (splitCodeContent span th ! i) = ContrastBg (Palette th))
       \<and> IsKeyword part = (Text part \<in> set codeKeywords)
       \<and> (\<forall>k \<in> set codeKeywords. \<not> isSymbol k)"
proof -
  have "part \<in> set (splitByKeywords (Content span) codeKeywords)"
    using assms by simp
  then have "IsKeyword part = (Text part \<in> set codeKeywords)"
    by (rule splitByKeywords_flag)
  moreover have "\<forall>k \<in> set codeKeywords. \<not> isSymbol k"
    by (simp add: codeKeywords_def isSymbol_def)
  moreover have "Color (splitCodeContent span th ! i) = partColor th part"
    using assms by (simp add: splitCodeContent_nth)
  ultimately show ?thesis by (simp add: partColor_def)
qed

theorem stylist_precedence_witness:
  "2 < length (splitByKeywords (Content sampleSpan) codeKeywords)
   \<and> IsKeyword (splitByKeywords (Content sampleSpan) codeKeywords ! 2)
   \<and> Text (splitByKeywords (Content sampleSpan) codeKeywords ! 2) = ''main''
   \<and> Color (splitCodeContent sampleSpan sampleTheme ! 2) = \<lparr>R = 0x3F, G = 0x51, B = 0xB5, A = 0xFF\<rparr>"
proof -
  have c: "Content sampleSpan = ''func main() {''" by (simp add: sampleSpan_def)
  have l: "2 < length (splitByKeywords (Content sampleSpan) codeKeywords)"
    by (simp add: c sample_tokens)
  from stylist_precedence [OF l refl, of sampleTheme] l show ?thesis
    by (simp add: c sample_tokens sampleTheme_def)
qed

text \<open>
  C4. A token of the tokenizer's output that is a single character of the symbol set
  \<open>(),;{}\<close> and is not flagged as a keyword is styled with the symbol colour
  (opaque red).
\<close>

theorem symbol_colour:
  assumes "i < length (splitByKeywords (Content span) codeKeywords)"
    and "Text (splitByKeywords (Content span) codeKeywords ! i) = [c]"
    and "c \<in> set ''(),;{}''"
    and "\<not> IsKeyword (splitByKeywords (Content span) codeKeywords ! i)"
  shows "Color (splitCodeContent span th ! i) = \<lparr>R = 0xFF, G = 0, B = 0, A = 0xFF\<rparr>"
proof -
  have "isSymbol (Text (splitByKeywords (Content span) codeKeywords ! i))"
    using assms(2,3) by (simp only: isSymbol_iff) blast
  with assms(1,4) show ?thesis
    by (simp add: splitCodeContent_nth partColor_def symbolColor_def)
qed

theorem symbol_colour_witness:
  "3 < length (splitByKeywords (Content sampleSpan) codeKeywords)
   \<and> Text (splitByKeywords (Content sampleSpan) codeKeywords ! 3) = ''(''
   \<and> Color (splitCodeContent sampleSpan sampleTheme ! 3) = \<lparr>R = 0xFF, G = 0, B = 0, A = 0xFF\<rparr>"
proof -
  have c: "Content sampleSpan = ''func main() {''" by (simp add: sampleSpan_def)
  have l: "3 < length (splitByKeywords (Content sampleSpan) codeKeywords)"
    by (simp add: c sample_tokens)
  have t: "Text (splitByKeywords (Content sampleSpan) codeKeywords ! 3) = [CHR ''('']"
    by (simp add: c sample_tokens)
  have k: "\<not> IsKeyword (splitByKeywords (Content sampleSpan) codeKeywords ! 3)"
    by (simp add: c sample_tokens)
  have m: "CHR ''('' \<in> set ''(),;{}''" by simp
  from symbol_colour [OF l t m k, of sampleTheme] l t show ?thesis by simp
qed

lemma quoted_tokens:
  "splitByKeywords (''Println('' @ [CHR 0x22] @ ''hi'' @ [CHR 0x22] @ '')'') codeKeywords =
     [\<lparr>Text = ''Println'', IsKeyword = True\<rparr>, \<lparr>Text = ''('', IsKeyword = False\<rparr>,
      \<lparr>Text = [CHR 0x22] @ ''hi'' @ [CHR 0x22], IsKeyword = False\<rparr>,
      \<lparr>Text = '')'', IsKeyword = False\<rparr>]"
  by code_simp

text \<open>
  C5. A token of the tokenizer's output that has at least two characters, the first and
  the last of them a double quote, is styled with the string colour (opaque pink
  FF 69 B4); such a token is neither flagged as a keyword nor a symbol.
\<close>

theorem string_colour:
  assumes "i < length (splitByKeywords (Content span) codeKeywords)"
    and "2 \<le> length (Text (splitByKeywords (Content span) codeKeywords ! i))"
    and "hd (Text (splitByKeywords (Content span) codeKeywords ! i)) = CHR 0x22"
    and "last (Text (splitByKeywords (Content span) codeKeywords ! i)) = CHR 0x22"
  shows "Color (splitCodeContent span th ! i) = \<lparr>R = 0xFF, G = 0x69, B = 0xB4, A = 0xFF\<rparr>
       \<and> \<not> IsKeyword (splitByKeywords (Content span) codeKeywords ! i)
       \<and> \<not> isSymbol (Text (splitByKeywords (Content span) codeKeywords ! i))"
proof -
  let ?p = "splitByKeywords (Content span) codeKeywords ! i"
  have ne: "Text ?p \<noteq> []" using assms(2) by auto
  have "?p \<in> set (splitByKeywords (Content span) codeKeywords)"
    using assms(1) by simp
  then have "IsKeyword ?p = (Text ?p \<in> set codeKeywords)"
    by (rule splitByKeywords_flag)
  moreover have "Text ?p \<notin> set codeKeywords"
    using assms(3) by (auto simp add: codeKeywords_def)
  ultimately have k: "\<not> IsKeyword ?p" by simp
  have s: "\<not> isSymbol (Text ?p)" using assms(2) by (auto simp add: isSymbol_iff)
  have q: "isString (Text ?p)" using ne assms(3,4) by (simp add: isString_iff)
  from k s q assms(1) show ?thesis
    by (simp add: splitCodeContent_nth partColor_def stringColor_def)
qed

theorem string_colour_witness:
  "Text (splitByKeywords
           (Content (sampleSpan\<lparr>Content := ''Println('' @ [CHR 0x22] @ ''hi'' @ [CHR 0x22] @ '')''\<rparr>))
           codeKeywords ! 2) = [CHR 0x22] @ ''hi'' @ [CHR 0x22]
   \<and> Color (splitCodeContent
           (sampleSpan\<lparr>Content := ''Println('' @ [CHR 0x22] @ ''hi'' @ [CHR 0x22] @ '')''\<rparr>)
           sampleTheme ! 2) = \<lparr>R = 0xFF, G = 0x69, B = 0xB4, A = 0xFF\<rparr>"
proof -
  let ?span = "sampleSpan\<lparr>Content := ''Println('' @ [CHR 0x22] @ ''hi'' @ [CHR 0x22] @ '')''\<rparr>"
  have c: "Content ?span = ''Println('' @ [CHR 0x22] @ ''hi'' @ [CHR 0x22] @ '')''" by simp
  have l: "2 < length (splitByKeywords (Content ?span) codeKeywords)"
    by (simp only: c quoted_tokens) simp
  have t: "Text (splitByKeywords (Content ?span) codeKeywords ! 2) = [CHR 0x22] @ ''hi'' @ [CHR 0x22]"
    by (simp only: c quoted_tokens) simp
  have n: "2 \<le> length (Text (splitByKeywords (Content ?span) codeKeywords ! 2))"
    by (simp only: t) simp
  have h: "hd (Text (splitByKeywords (Content ?span) codeKeywords ! 2)) = CHR 0x22"
    by (simp only: t) simp
  have e: "last (Text (splitByKeywords (Content ?span) codeKeywords ! 2)) = CHR 0x22"
    by (simp only: t) simp
  from string_colour [OF l n h e, of sampleTheme] t show ?thesis by simp
qed

text \<open>
  C6. The input \<open>func main() {\<close> is split into \<open>func\<close>, a space, \<open>main\<close>, \<open>(\<close>, \<open>)\<close>, a
  space and \<open>{\<close>, with exactly \<open>func\<close> and \<open>main\<close> flagged as keywords. In the styled
  output \<open>func\<close> and \<open>main\<close> have the theme's contrast colour, the parentheses and the
  brace the symbol colour, and the two spaces the theme's foreground colour.
\<close>

theorem func_main_example:
  "splitByKeywords ''func main() {'' codeKeywords =
     [\<lparr>Text = ''func'', IsKeyword = True\<rparr>, \<lparr>Text = '' '', IsKeyword = False\<rparr>,
      \<lparr>Text = ''main'', IsKeyword = True\<rparr>, \<lparr>Text = ''('', IsKeyword = False\<rparr>,
      \<lparr>Text = '')'', IsKeyword = False\<rparr>, \<lparr>Text = '' '', IsKeyword = False\<rparr>,
      \<lparr>Text = ''{'', IsKeyword = False\<rparr>]
   \<and> map Color (splitCodeContent (span\<lparr>Content := ''func main() {''\<rparr>) th) =
     [ContrastBg (Palette th), Fg (Palette th), ContrastBg (Palette th),
      \<lparr>R = 0xFF, G = 0, B = 0, A = 0xFF\<rparr>, \<lparr>R = 0xFF, G = 0, B = 0, A = 0xFF\<rparr>,
      Fg (Palette th), \<lparr>R = 0xFF, G = 0, B = 0, A = 0xFF\<rparr>]
   \<and> map Content (splitCodeContent (span\<lparr>Content := ''func main() {''\<rparr>) th) =
     [''func'', '' '', ''main'', ''('', '')'', '' '', ''{'']"
proof -
  have s: "isSymbol ''('' \<and> isSymbol '')'' \<and> isSymbol ''{'' \<and> \<not> isSymbol '' ''"
    by (simp add: isSymbol_iff)
  have q: "\<not> isString '' ''" by (simp add: isString_iff)
  show ?thesis
    by (simp add: splitCodeContent_map sample_tokens partColor_def s q symbolColor_def)
qed

text \<open>
  C7. \<open>splitCodeContent\<close> returns one styled segment per token, in the tokenizer's
  order; the segment's \<open>Content\<close> is the token's text; each segment is the enclosing span
  with only \<open>Color\<close> and \<open>Content\<close> replaced, so the font, the size, the interactivity
  flag and the metadata are those of the enclosing span.
\<close>

theorem splitCodeContent_frame:
  "length (splitCodeContent span th) = length (splitByKeywords (Content span) codeKeywords)
   \<and> map Content (splitCodeContent span th)
       = map Text (splitByKeywords (Content span) codeKeywords)
   \<and> (\<forall>i < length (splitCodeContent span th).
         splitCodeContent span th ! i
           = span\<lparr>Color := Color (splitCodeContent span th ! i),
                  Content := Text (splitByKeywords (Content span) codeKeywords ! i)\<rparr>)
   \<and> (\<forall>s \<in> set (splitCodeContent span th).
         Font s = Font span \<and> Size s = Size span \<and> Interactive s = Interactive span
         \<and> metadata s = metadata span \<and> SpanStyle.more s = SpanStyle.more span)"
  by (auto simp add: splitCodeContent_map)

theorem splitCodeContent_frame_witness:
  "length (splitCodeContent sampleSpan sampleTheme) = 7
   \<and> map Content (splitCodeContent sampleSpan sampleTheme)
       = [''func'', '' '', ''main'', ''('', '')'', '' '', ''{'']
   \<and> splitCodeContent sampleSpan sampleTheme ! 3
       = sampleSpan\<lparr>Color := Color (splitCodeContent sampleSpan sampleTheme ! 3), Content := ''(''\<rparr>
   \<and> Font (splitCodeContent sampleSpan sampleTheme ! 3) = ''monospace''
   \<and> Size (splitCodeContent sampleSpan sampleTheme ! 3) = 16"
proof -
  have c: "Content sampleSpan = ''func main() {''" by (simp add: sampleSpan_def)
  note f = splitCodeContent_frame [of sampleSpan sampleTheme]
  have l: "length (splitCodeContent sampleSpan sampleTheme) = 7"
    using f by (simp add: c sample_tokens)
  then have i: "3 < length (splitCodeContent sampleSpan sampleTheme)" by simp
  then have m: "splitCodeContent sampleSpan sampleTheme ! 3 \<in> set (splitCodeContent sampleSpan sampleTheme)"
    by (rule nth_mem)
  from f m have "Font (splitCodeContent sampleSpan sampleTheme ! 3) = Font sampleSpan"
    and "Size (splitCodeContent sampleSpan sampleTheme ! 3) = Size sampleSpan"
    by blast+
  moreover from f i have "splitCodeContent sampleSpan sampleTheme ! 3
       = sampleSpan\<lparr>Color := Color (splitCodeContent sampleSpan sampleTheme ! 3),
            Content := Text (splitByKeywords (Content sampleSpan) codeKeywords ! 3)\<rparr>"
    by blast
  moreover from f have "map Content (splitCodeContent sampleSpan sampleTheme)
       = map Text (splitByKeywords (Content sampleSpan) codeKeywords)"
    by blast
  ultimately show ?thesis
    using l by (simp add: c sample_tokens) (simp add: sampleSpan_def)
qed

section \<open>The shape of the token sequence\<close>

text \<open>
  C8. Every token returned by \<open>splitByKeywords\<close> is either a single separator character
  (never flagged as a keyword) or a nonempty run of characters none of which is a
  separator. The runs are maximal: of two consecutive tokens at least one is a
  separator. The separator tokens are, in order, the separator characters of the input,
  one token per occurrence; and the tokens together are the input as the range loop
  reads it. Hence an input made of separators only gives one separator token per
  character and nothing else, and the empty input gives no token.
\<close>

theorem splitByKeywords_tokens:
  "(\<forall>p \<in> set (splitByKeywords content kws).
       ((\<exists>c \<in> set separators. Text p = [c]) \<and> \<not> IsKeyword p)
       \<or> (Text p \<noteq> [] \<and> set (Text p) \<inter> set separators = {}))
   \<and> successively
         (\<lambda>a b. (\<exists>c \<in> set separators. a = [c]) \<or> (\<exists>c \<in> set separators. b = [c]))
         (map Text (splitByKeywords content kws))
   \<and> filter (\<lambda>t. \<exists>c \<in> set separators. t = [c]) (map Text (splitByKeywords content kws))
       = map (\<lambda>c. [c]) (filter (\<lambda>c. c \<in> set separators) content)
   \<and> concat (map Text (splitByKeywords content kws))
       = concat (map encoderune (rangeRunes content))
   \<and> (set content \<subseteq> set separators \<longrightarrow>
        splitByKeywords content kws = map (\<lambda>c. \<lparr>Text = [c], IsKeyword = False\<rparr>) content)
   \<and> splitByKeywords [] kws = []"
proof (intro conjI)
  have rng: "\<forall>r \<in> set (rangeRunes content). 0 \<le> r \<and> r \<le> 0x10FFFF"
    using rangeRunes_range by blast
  show "\<forall>p \<in> set (splitByKeywords content kws).
       ((\<exists>c \<in> set separators. Text p = [c]) \<and> \<not> IsKeyword p)
       \<or> (Text p \<noteq> [] \<and> set (Text p) \<inter> set separators = {})"
    using splitByKeywords_shape [of _ content kws] by blast
  show "successively
         (\<lambda>a b. (\<exists>c \<in> set separators. a = [c]) \<or> (\<exists>c \<in> set separators. b = [c]))
         (map Text (splitByKeywords content kws))"
    by (simp only: splitByKeywords_tokensFrom tokensFrom_adjacent)
  show "filter (\<lambda>t. \<exists>c \<in> set separators. t = [c]) (map Text (splitByKeywords content kws))
       = map (\<lambda>c. [c]) (filter (\<lambda>c. c \<in> set separators) content)"
    using tokensFrom_separators [OF rng, of "[]" kws]
    by (simp add: splitByKeywords_tokensFrom separator_runes)
  show "concat (map Text (splitByKeywords content kws))
       = concat (map encoderune (rangeRunes content))"
    by (simp add: splitByKeywords_tokensFrom concat_tokensFrom)
  show "set content \<subseteq> set separators \<longrightarrow>
        splitByKeywords content kws = map (\<lambda>c. \<lparr>Text = [c], IsKeyword = False\<rparr>) content"
  proof
    assume a: "set content \<subseteq> set separators"
    then have asc: "\<forall>c \<in> set content. (of_char c :: int) < 0x80"
      using separators_ascii by blast
    have r: "rangeRunes content = map of_char content"
      by (rule rangeRunes_all_ascii [OF asc])
    have "\<forall>r \<in> set (rangeRunes content). ContainsRune separators r"
      using a by (auto simp add: r sep_of_char)
    then have "splitByKeywords content kws
        = map (\<lambda>r. \<lparr>Text = encoderune r, IsKeyword = False\<rparr>) (rangeRunes content)"
      by (simp only: splitByKeywords_tokensFrom tokensFrom_only_separators)
    also have "\<dots> = map (\<lambda>c. \<lparr>Text = encoderune (of_char c), IsKeyword = False\<rparr>) content"
      by (simp add: r o_def)
    also have "\<dots> = map (\<lambda>c. \<lparr>Text = [c], IsKeyword = False\<rparr>) content"
      using asc by (intro map_cong) (simp_all add: encoderune_of_char)
    finally show "splitByKeywords content kws
        = map (\<lambda>c. \<lparr>Text = [c], IsKeyword = False\<rparr>) content" .
  qed
  show "splitByKeywords [] kws = []"
    by (simp add: splitByKeywords_tokensFrom)
qed

theorem splitByKeywords_tokens_witness:
  "splitByKeywords '');;'' codeKeywords
     = [\<lparr>Text = '')'', IsKeyword = False\<rparr>, \<lparr>Text = '';'', IsKeyword = False\<rparr>,
        \<lparr>Text = '';'', IsKeyword = False\<rparr>]
   \<and> map Text (splitByKeywords ''f(a,,b)'' codeKeywords)
       = [''f'', ''('', ''a'', '','', '','', ''b'', '')'']
   \<and> filter (\<lambda>t. \<exists>c \<in> set separators. t = [c])
         (map Text (splitByKeywords ''f(a,,b)'' codeKeywords))
       = [''('', '','', '','', '')'']
   \<and> set (Text (splitByKeywords ''f(a,,b)'' codeKeywords ! 2)) \<inter> set separators = {}"
proof -
  have s: "set '');;'' \<subseteq> set separators" by (simp add: separators_def)
  have 1: "splitByKeywords '');;'' codeKeywords
     = [\<lparr>Text = '')'', IsKeyword = False\<rparr>, \<lparr>Text = '';'', IsKeyword = False\<rparr>,
        \<lparr>Text = '';'', IsKeyword = False\<rparr>]"
    using splitByKeywords_tokens [of "'');;''" codeKeywords] s by simp
  have t: "map Text (splitByKeywords ''f(a,,b)'' codeKeywords)
       = [''f'', ''('', ''a'', '','', '','', ''b'', '')'']"
    by code_simp
  have 3: "filter (\<lambda>t. \<exists>c \<in> set separators. t = [c])
         (map Text (splitByKeywords ''f(a,,b)'' codeKeywords))
       = [''('', '','', '','', '')'']"
    using splitByKeywords_tokens [of "''f(a,,b)''" codeKeywords]
    by (simp add: separators_def)
  have m: "splitByKeywords ''f(a,,b)'' codeKeywords ! 2
             \<in> set (splitByKeywords ''f(a,,b)'' codeKeywords)"
    using arg_cong [OF t, of length] by (intro nth_mem) simp
  have x: "Text (splitByKeywords ''f(a,,b)'' codeKeywords ! 2) = ''a''"
    using arg_cong [OF t, of "\<lambda>l. l ! 2"] arg_cong [OF t, of length] by simp
  have "\<not> (\<exists>c \<in> set separators. Text (splitByKeywords ''f(a,,b)'' codeKeywords ! 2) = [c])"
    by (simp add: x separators_def)
  with splitByKeywords_tokens [of "''f(a,,b)''" codeKeywords] m
  have 4: "set (Text (splitByKeywords ''f(a,,b)'' codeKeywords ! 2)) \<inter> set separators = {}"
    by blast
  from 1 t 3 4 show ?thesis by blast
qed

section \<open>Two consequences of the order of the tests\<close>

text \<open>
  C9. The double quote is not a separator, so the one-character input consisting of a
  double quote is a single token. \<open>isString\<close> holds of it (its first and its last
  character are the same double quote), it is neither a keyword nor a symbol, and
  the stylist gives it the string colour.
\<close>

theorem lone_quote_is_string:
  "isString [CHR 0x22] \<and> \<not> isSymbol [CHR 0x22] \<and> CHR 0x22 \<notin> set separators
   \<and> splitByKeywords [CHR 0x22] codeKeywords = [\<lparr>Text = [CHR 0x22], IsKeyword = False\<rparr>]
   \<and> splitCodeContent (span\<lparr>Content := [CHR 0x22]\<rparr>) th
       = [span\<lparr>Color := \<lparr>R = 0xFF, G = 0x69, B = 0xB4, A = 0xFF\<rparr>, Content := [CHR 0x22]\<rparr>]"
proof -
  have t: "splitByKeywords [CHR 0x22] codeKeywords = [\<lparr>Text = [CHR 0x22], IsKeyword = False\<rparr>]"
    by code_simp
  have q: "isString [CHR 0x22]" by (simp add: isString_iff)
  have s: "\<not> isSymbol [CHR 0x22]" by (simp add: isSymbol_iff)
  have n: "CHR 0x22 \<notin> set separators" by (simp add: separators_def)
  from t q s n show ?thesis
    by (simp add: splitCodeContent_map partColor_def stringColor_def)
qed

text \<open>
  C10. The period is a separator but not a symbol. So whenever the input contains a
  period, the tokens contain the period as a token of its own, not flagged as a keyword;
  a period never occurs inside a longer token; and every period token is styled with
  the theme's foreground colour, the default, not through the symbol branch.
\<close>

theorem period_default_colour:
  "CHR ''.'' \<in> set separators \<and> \<not> isSymbol ''.''
   \<and> (CHR ''.'' \<in> set (Content span) \<longrightarrow>
        \<lparr>Text = ''.'', IsKeyword = False\<rparr> \<in> set (splitByKeywords (Content span) codeKeywords))
   \<and> (\<forall>p \<in> set (splitByKeywords (Content span) codeKeywords).
        CHR ''.'' \<in> set (Text p) \<longrightarrow> Text p = ''.'' \<and> \<not> IsKeyword p)
   \<and> (\<forall>i < length (splitByKeywords (Content span) codeKeywords).
        Text (splitByKeywords (Content span) codeKeywords ! i) = ''.'' \<longrightarrow>
        Color (splitCodeContent span th ! i) = Fg (Palette th))"
proof -
  have "CHR ''.'' \<in> set separators" by (simp add: separators_def)
  moreover have "\<not> isSymbol ''.''" by (simp add: isSymbol_iff)
  ultimately show ?thesis
    using period_token_present [of "Content span" codeKeywords]
      period_token_alone [of _ "Content span" codeKeywords]
      period_token_colour [of _ span th]
    by blast
qed

theorem period_default_colour_witness:
  "CHR ''.'' \<in> set (Content (sampleSpan\<lparr>Content := ''fmt.Println''\<rparr>))
   \<and> \<lparr>Text = ''.'', IsKeyword = False\<rparr>
       \<in> set (splitByKeywords (Content (sampleSpan\<lparr>Content := ''fmt.Println''\<rparr>)) codeKeywords)
   \<and> Text (splitByKeywords (Content (sampleSpan\<lparr>Content := ''fmt.Println''\<rparr>)) codeKeywords ! 1)
       = ''.''
   \<and> Color (splitCodeContent (sampleSpan\<lparr>Content := ''fmt.Println''\<rparr>) sampleTheme ! 1)
       = \<lparr>R = 0, G = 0, B = 0, A = 0xFF\<rparr>"
proof -
  let ?span = "sampleSpan\<lparr>Content := ''fmt.Println''\<rparr>"
  have c: "Content ?span = ''fmt.Println''" by simp
  have t: "splitByKeywords ''fmt.Println'' codeKeywords
      = [\<lparr>Text = ''fmt'', IsKeyword = False\<rparr>, \<lparr>Text = ''.'', IsKeyword = False\<rparr>,
         \<lparr>Text = ''Println'', IsKeyword = True\<rparr>]"
    by code_simp
  have d: "CHR ''.'' \<in> set (Content ?span)" by simp
  have l: "1 < length (splitByKeywords (Content ?span) codeKeywords)"
    by (simp only: c t) simp
  have x: "Text (splitByKeywords (Content ?span) codeKeywords ! 1) = ''.''"
    by (simp only: c t) simp
  note th = period_default_colour [of ?span sampleTheme]
  from th d have "\<lparr>Text = ''.'', IsKeyword = False\<rparr>
      \<in> set (splitByKeywords (Content ?span) codeKeywords)"
    by blast
  moreover from th l x have "Color (splitCodeContent ?span sampleTheme ! 1)
      = Fg (Palette sampleTheme)"
    by blast
  ultimately show ?thesis using d x by (simp add: sampleTheme_def)
qed

end
